theory Spec2Isabelle
  imports Complex_Main "HOL-Library.Sublist" "HOL-Library.AList"
begin

section \<open>Python strings\<close>

text \<open>
  A Python \<open>str\<close> is modelled as a \<open>string\<close> whose characters are the code points
  below 256; the tables below are Python's \<open>str.isspace\<close>, \<open>str.lower\<close> and the
  \<open>re\<close> classes \<open>\\d\<close> and \<open>\\w\<close> on that range.
\<close>

definition py_isspace :: "char \<Rightarrow> bool" where
  "py_isspace c = (let n = (of_char c :: nat) in
     (9 \<le> n \<and> n \<le> 13) \<or> (28 \<le> n \<and> n \<le> 32) \<or> n = 133 \<or> n = 160)"

definition py_lower_char :: "char \<Rightarrow> char" where
  "py_lower_char c = (let n = (of_char c :: nat) in
     if (65 \<le> n \<and> n \<le> 90) \<or> (192 \<le> n \<and> n \<le> 222 \<and> n \<noteq> 215)
     then char_of (n + 32) else c)"

definition py_lower :: "string \<Rightarrow> string" where
  "py_lower s = map py_lower_char s"

definition py_strip :: "string \<Rightarrow> string" where
  "py_strip s = rev (dropWhile py_isspace (rev (dropWhile py_isspace s)))"

text \<open>\<open>sub in s\<close> on strings: some suffix of \<open>s\<close> starts with \<open>sub\<close>.\<close>

fun py_contains :: "string \<Rightarrow> string \<Rightarrow> bool" where
  "py_contains sub [] = (sub = [])"
| "py_contains sub (c # cs) = (prefix sub (c # cs) \<or> py_contains sub cs)"

text \<open>Truth values of optional strings, optional integers: \<open>None\<close>, \<open>""\<close> and \<open>0\<close> are false.\<close>

definition truthy_str :: "string option \<Rightarrow> bool" where
  "truthy_str v = (case v of None \<Rightarrow> False | Some s \<Rightarrow> s \<noteq> [])"

definition truthy_int :: "int option \<Rightarrow> bool" where
  "truthy_int v = (case v of None \<Rightarrow> False | Some n \<Rightarrow> n \<noteq> 0)"

text \<open>\<open>v or ""\<close> for an optional string.\<close>

definition or_empty :: "string option \<Rightarrow> string" where
  "or_empty v = (case v of None \<Rightarrow> [] | Some s \<Rightarrow> s)"

section \<open>The Lead record (models.py)\<close>

text \<open>
  An officer is a dictionary with string keys; its values are strings or \<open>None\<close>
  (the list under the key \<open>appointments\<close>, which no function below reads, is left out).
  \<open>scraped_at\<close> is a timestamp. \<open>data_quality_score\<close> only ever receives integers
  from the code; \<open>ideal_customer_profile_match\<close> is a float, modelled by the rational
  it denotes.
\<close>

type_synonym officer = "(string \<times> string option) list"
type_synonym datetime = nat

record Lead =
  company_name :: string
  website :: string
  location :: string
  source :: string
  scraped_at :: datetime
  phone_number :: "string option"
  email :: "string option"
  linkedin :: "string option"
  twitter :: "string option"
  facebook :: "string option"
  instagram :: "string option"
  ceo_name :: "string option"
  ceo_linkedin :: "string option"
  sales_director :: "string option"
  marketing_director :: "string option"
  employee_count :: "int option"
  annual_revenue :: "string option"
  founded_year :: "int option"
  industry_awards :: "string list"
  key_clients :: "string list"
  technologies_used :: "string list"
  status :: "string option"
  company_type :: "string option"
  incorporation_date :: "string option"
  sic_codes :: "string option"
  accounts_next :: "string option"
  accounts_last :: "string option"
  confirmation_next :: "string option"
  confirmation_last :: "string option"
  officers :: "officer list"
  phone_verified :: bool
  email_verified :: bool
  robots_txt_status :: string
  screenshot_path :: "string option"
  data_quality_score :: int
  trigger_events :: "string list"
  pain_points :: "string list"
  ideal_customer_profile_match :: rat
  estimated_deal_size :: "string option"

text \<open>The \<open>weights\<close> dictionary of \<open>calculate_quality_score\<close>, in its literal order.\<close>

definition weights :: "(string \<times> int) list" where
  "weights = [(''phone_number'', 20), (''email'', 20), (''linkedin'', 15),
              (''ceo_name'', 15), (''employee_count'', 10), (''phone_verified'', 10),
              (''email_verified'', 10)]"

text \<open>The truth value of \<open>getattr(self, field)\<close> for the attribute names the weights use.\<close>

definition getattr_truthy :: "Lead \<Rightarrow> string \<Rightarrow> bool" where
  "getattr_truthy self field =
     (if field = ''phone_number'' then truthy_str (phone_number self)
      else if field = ''email'' then truthy_str (email self)
      else if field = ''linkedin'' then truthy_str (linkedin self)
      else if field = ''ceo_name'' then truthy_str (ceo_name self)
      else if field = ''employee_count'' then truthy_int (employee_count self)
      else if field = ''phone_verified'' then phone_verified self
      else if field = ''email_verified'' then email_verified self
      else False)"

text \<open>The loop body: \<open>if getattr(self, field): score += weight\<close>.\<close>

definition add_weight :: "Lead \<Rightarrow> string \<times> int \<Rightarrow> int \<Rightarrow> int" where
  "add_weight self fw score =
     (if getattr_truthy self (fst fw) then score + snd fw else score)"

definition calculate_quality_score :: "Lead \<Rightarrow> Lead" where
  "calculate_quality_score self =
     self\<lparr>data_quality_score := fold (add_weight self) weights 0\<rparr>"

text \<open>
  The dataclass constructor with its defaults for a lead made from the five required
  fields, followed by \<open>__post_init__\<close>.
\<close>

definition new_lead :: "string \<Rightarrow> string \<Rightarrow> string \<Rightarrow> string \<Rightarrow> datetime \<Rightarrow> Lead" where
  "new_lead name site loc src ts = calculate_quality_score
     \<lparr>company_name = name, website = site, location = loc, source = src, scraped_at = ts,
      phone_number = None, email = None, linkedin = None, twitter = None, facebook = None,
      instagram = None, ceo_name = None, ceo_linkedin = None, sales_director = None,
      marketing_director = None, employee_count = None, annual_revenue = None,
      founded_year = None, industry_awards = [], key_clients = [], technologies_used = [],
      status = None, company_type = None, incorporation_date = None, sic_codes = None,
      accounts_next = None, accounts_last = None, confirmation_next = None,
      confirmation_last = None, officers = [], phone_verified = False,
      email_verified = False, robots_txt_status = ''Unchecked'', screenshot_path = None,
      data_quality_score = 0, trigger_events = [], pain_points = [],
      ideal_customer_profile_match = 0, estimated_deal_size = None\<rparr>"

section \<open>Quality score\<close>

lemma quality_score_value:
  "fold (add_weight self) weights 0 =
     (if truthy_str (phone_number self) then 20 else 0)
   + (if truthy_str (email self) then 20 else 0)
   + (if truthy_str (linkedin self) then 15 else 0)
   + (if truthy_str (ceo_name self) then 15 else 0)
   + (if truthy_int (employee_count self) then 10 else 0)
   + (if phone_verified self then 10 else 0)
   + (if email_verified self then 10 else 0)"
  by (simp add: weights_def add_weight_def getattr_truthy_def)

lemma getattr_truthy_score_update:
  "getattr_truthy (self\<lparr>data_quality_score := s\<rparr>) field = getattr_truthy self field"
  by (simp add: getattr_truthy_def)

lemma add_weight_score_update:
  "add_weight (self\<lparr>data_quality_score := s\<rparr>) = add_weight self"
  by (rule ext)+ (simp add: add_weight_def getattr_truthy_score_update)

text \<open>
  Claim C2. For every lead, \<open>calculate_quality_score\<close> sets \<open>data_quality_score\<close> to
  the weighted sum over the presence (Python truth value) of the seven fields: phone
  number 20, email 20, linkedin 15, ceo name 15, employee count 10, phone verified 10,
  email verified 10. The value does not depend on the score the lead had before, no
  other field changes, and computing it a second time changes nothing.
\<close>

theorem calculate_quality_score_weighted_sum:
  "data_quality_score (calculate_quality_score self) =
       (if truthy_str (phone_number self) then 20 else 0)
     + (if truthy_str (email self) then 20 else 0)
     + (if truthy_str (linkedin self) then 15 else 0)
     + (if truthy_str (ceo_name self) then 15 else 0)
     + (if truthy_int (employee_count self) then 10 else 0)
     + (if phone_verified self then 10 else 0)
     + (if email_verified self then 10 else 0)
   \<and> calculate_quality_score (self\<lparr>data_quality_score := s\<rparr>) = calculate_quality_score self
   \<and> calculate_quality_score (calculate_quality_score self) = calculate_quality_score self"
proof -
  have total: "fold (add_weight self) weights 0 =
       (if truthy_str (phone_number self) then 20 else 0)
     + (if truthy_str (email self) then 20 else 0)
     + (if truthy_str (linkedin self) then 15 else 0)
     + (if truthy_str (ceo_name self) then 15 else 0)
     + (if truthy_int (employee_count self) then 10 else 0)
     + (if phone_verified self then 10 else 0)
     + (if email_verified self then 10 else 0)"
    by (rule quality_score_value)
  have overwrite: "calculate_quality_score (self\<lparr>data_quality_score := t\<rparr>)
      = calculate_quality_score self" for t
    by (simp add: calculate_quality_score_def add_weight_score_update)
  have again: "calculate_quality_score (calculate_quality_score self)
      = calculate_quality_score self"
    by (simp add: calculate_quality_score_def add_weight_score_update)
  have score: "data_quality_score (calculate_quality_score self)
      = fold (add_weight self) weights 0"
    by (simp add: calculate_quality_score_def)
  show ?thesis
    unfolding score total by (intro conjI refl overwrite again)
qed

section \<open>Classification codes and ICP score (scraper.py)\<close>

text \<open>The \<open>re\<close> classes \<open>\\d\<close> and \<open>\\w\<close>, and \<open>\\b\<close> between the character before a
  position (\<open>None\<close> at the start) and the rest of the text.\<close>

definition is_digit :: "char \<Rightarrow> bool" where
  "is_digit c = (let n = (of_char c :: nat) in 48 \<le> n \<and> n \<le> 57)"

definition is_word_char :: "char \<Rightarrow> bool" where
  "is_word_char c = (let n = (of_char c :: nat) in
     (48 \<le> n \<and> n \<le> 57) \<or> (65 \<le> n \<and> n \<le> 90) \<or> n = 95 \<or> (97 \<le> n \<and> n \<le> 122)
     \<or> n = 170 \<or> n = 178 \<or> n = 179 \<or> n = 181 \<or> n = 185 \<or> n = 186
     \<or> (188 \<le> n \<and> n \<le> 190) \<or> (192 \<le> n \<and> n \<le> 214) \<or> (216 \<le> n \<and> n \<le> 246)
     \<or> 248 \<le> n)"

definition is_word :: "char option \<Rightarrow> bool" where
  "is_word v = (case v of None \<Rightarrow> False | Some c \<Rightarrow> is_word_char c)"

definition word_boundary :: "char option \<Rightarrow> string \<Rightarrow> bool" where
  "word_boundary prev rest = (is_word prev \<noteq> is_word (case rest of [] \<Rightarrow> None | c # _ \<Rightarrow> Some c))"

text \<open>The pattern \<open>\\b(\\d{5})\\b\<close> tried at one position.\<close>

definition match_sic_at :: "char option \<Rightarrow> string \<Rightarrow> bool" where
  "match_sic_at prev s =
     (word_boundary prev s \<and> 5 \<le> length s \<and> list_all is_digit (take 5 s)
      \<and> word_boundary (Some (s ! 4)) (drop 5 s))"

text \<open>\<open>re.findall\<close>: scan from the left; after a match go on behind it, otherwise one
  character on.\<close>

fun findall_sic :: "char option \<Rightarrow> string \<Rightarrow> string list" where
  "findall_sic prev [] = []"
| "findall_sic prev (c # cs) =
     (if match_sic_at prev (c # cs)
      then take 5 (c # cs) # findall_sic (Some ((c # cs) ! 4)) (drop 5 (c # cs))
      else findall_sic (Some c) cs)"

text \<open>\<open>dict.fromkeys(codes)\<close>: an insertion-ordered dictionary with the value \<open>None\<close>
  under every key.\<close>

definition dict_fromkeys :: "'a list \<Rightarrow> ('a \<times> unit) list" where
  "dict_fromkeys ks = fold (\<lambda>k d. AList.update k () d) ks []"

definition extract_sic_codes_list :: "string \<Rightarrow> string list" where
  "extract_sic_codes_list sic_text =
     (if sic_text = [] \<or> sic_text = ''Unknown'' then []
      else map fst (dict_fromkeys (findall_sic None sic_text)))"

text \<open>
  The specification's words: the tokens of a text are its maximal runs of word
  characters; a 5-digit token is a token made of exactly five decimal digits;
  de-duplication keeps the first occurrence of each value, in order.
\<close>

function word_tokens :: "string \<Rightarrow> string list" where
  "word_tokens [] = []"
| "word_tokens (c # cs) =
     (if is_word_char c
      then (c # takeWhile is_word_char cs) # word_tokens (dropWhile is_word_char cs)
      else word_tokens cs)"
  by pat_completeness auto
termination
  by (relation "measure length") (auto simp: length_dropWhile_le less_Suc_eq_le)

definition five_digit :: "string \<Rightarrow> bool" where
  "five_digit t = (length t = 5 \<and> list_all is_digit t)"

fun first_seen :: "'a list \<Rightarrow> 'a list" where
  "first_seen [] = []"
| "first_seen (x # xs) = x # first_seen (filter (\<lambda>y. y \<noteq> x) xs)"


definition five_digit_tokens_spec :: "string \<Rightarrow> string list" where
  "five_digit_tokens_spec text = first_seen (filter five_digit (word_tokens text))"


lemma is_digit_word: "is_digit c \<Longrightarrow> is_word_char c"
  by (auto simp: is_digit_def is_word_char_def Let_def)

lemma fold_update_keys:
  "map fst (fold (\<lambda>k d. AList.update k () d) ks d0)
     = map fst d0 @ first_seen (filter (\<lambda>k. k \<notin> set (map fst d0)) ks)"
proof (induction ks arbitrary: d0)
  case Nil
  then show ?case by simp
next
  case (Cons k ks)
  show ?case
  proof (cases "k \<in> set (map fst d0)")
    case True
    then have keys: "map fst (AList.update k () d0) = map fst d0"
      by (simp add: update_keys)
    show ?thesis using True by (simp add: Cons.IH keys del: set_map)
  next
    case False
    then have keys: "map fst (AList.update k () d0) = map fst d0 @ [k]"
      by (simp add: update_keys)
    have both: "filter (\<lambda>x. x \<noteq> k \<and> x \<notin> set (map fst d0)) ks
        = filter (\<lambda>y. y \<noteq> k) (filter (\<lambda>k. k \<notin> set (map fst d0)) ks)"
      by (simp add: conj_commute)
    show ?thesis using False by (simp add: Cons.IH keys both del: set_map)
  qed
qed

lemma dict_fromkeys_first_seen: "map fst (dict_fromkeys ks) = first_seen ks"
  by (simp add: dict_fromkeys_def fold_update_keys)

lemma no_match_nonword: "\<not> is_word_char c \<Longrightarrow> \<not> match_sic_at prev (c # cs)"
  by (auto simp: match_sic_at_def dest: is_digit_word)

lemma findall_sic_in_run:
  "is_word_char p \<Longrightarrow> findall_sic (Some p) s
     = (case dropWhile is_word_char s of [] \<Rightarrow> [] | d # ds \<Rightarrow> findall_sic (Some d) ds)"
proof (induction s arbitrary: p)
  case Nil
  then show ?case by simp
next
  case (Cons c cs)
  show ?case
  proof (cases "is_word_char c")
    case True
    with Cons.prems have "\<not> match_sic_at (Some p) (c # cs)"
      by (simp add: match_sic_at_def word_boundary_def is_word_def)
    then show ?thesis using True Cons.IH [of c] by simp
  next
    case False
    then show ?thesis by (simp add: no_match_nonword)
  qed
qed

lemma findall_sic_skip:
  "s = [] \<or> \<not> is_word_char (hd s) \<Longrightarrow>
     (case s of [] \<Rightarrow> [] | d # ds \<Rightarrow> findall_sic (Some d) ds) = findall_sic prev s"
  by (cases s) (auto simp: no_match_nonword)

lemma dropWhile_start: "dropWhile P xs = [] \<or> \<not> P (hd (dropWhile P xs))"
  by (metis hd_dropWhile)

lemma digit_at_3:
  assumes "list_all is_digit xs" and "length xs = 4"
  shows "is_digit (xs ! 3)"
proof -
  have "xs ! 3 \<in> set xs" using assms(2) by (intro nth_mem) simp
  then show ?thesis using assms(1) by (simp add: list_all_iff)
qed

lemma match_sic_at_run:
  assumes w: "is_word_char c" and p: "\<not> is_word prev"
  shows "match_sic_at prev (c # cs) \<longleftrightarrow> five_digit (c # takeWhile is_word_char cs)"
proof
  assume m: "match_sic_at prev (c # cs)"
  then have len: "4 \<le> length cs" and dig: "list_all is_digit (c # take 4 cs)"
    and after: "word_boundary (Some (cs ! 3)) (drop 4 cs)"
    by (auto simp: match_sic_at_def numeral_eq_Suc)
  have "is_digit (take 4 cs ! 3)"
    using dig len by (intro digit_at_3) auto
  then have "is_digit (cs ! 3)" by simp
  then have "is_word_char (cs ! 3)" by (rule is_digit_word)
  with after have stop: "drop 4 cs = [] \<or> \<not> is_word_char (hd (drop 4 cs))"
    by (auto simp: word_boundary_def is_word_def split: list.splits)
  from dig have allw: "\<forall>x\<in>set (take 4 cs). is_word_char x"
    by (auto simp: list_all_iff dest: is_digit_word)
  have "takeWhile is_word_char (take 4 cs @ drop 4 cs) = take 4 cs"
  proof (cases "drop 4 cs")
    case Nil
    then show ?thesis using allw by (simp del: append_take_drop_id)
  next
    case (Cons d ds)
    with stop have "\<not> is_word_char d" by simp
    then show ?thesis using allw Cons
      by (simp add: takeWhile_append2 del: append_take_drop_id)
  qed
  then have tw: "takeWhile is_word_char cs = take 4 cs" by simp
  show "five_digit (c # takeWhile is_word_char cs)"
    using dig len by (simp add: five_digit_def tw)
next
  assume f: "five_digit (c # takeWhile is_word_char cs)"
  then have l4: "length (takeWhile is_word_char cs) = 4"
    and dig: "list_all is_digit (c # takeWhile is_word_char cs)"
    by (auto simp: five_digit_def)
  have split: "takeWhile is_word_char cs @ dropWhile is_word_char cs = cs" by simp
  have tk: "take 4 cs = takeWhile is_word_char cs"
    using l4 append_eq_conv_conj [THEN iffD1, OF split] by simp
  have dr: "drop 4 cs = dropWhile is_word_char cs"
    using l4 append_eq_conv_conj [THEN iffD1, OF split] by simp
  have len: "4 \<le> length cs"
    using l4 length_takeWhile_le [of is_word_char cs] by simp
  have "is_digit (takeWhile is_word_char cs ! 3)"
    using dig l4 by (intro digit_at_3) auto
  then have "is_digit (cs ! 3)"
    using l4 by (simp add: takeWhile_nth)
  then have w3: "is_word_char (cs ! 3)" by (rule is_digit_word)
  have stop: "drop 4 cs = [] \<or> \<not> is_word_char (hd (drop 4 cs))"
    unfolding dr by (rule dropWhile_start)
  have b1: "word_boundary prev (c # cs)"
    using w p by (simp add: word_boundary_def is_word_def)
  have b2: "word_boundary (Some (cs ! 3)) (drop 4 cs)"
    using w3 stop by (cases "drop 4 cs") (simp_all add: word_boundary_def is_word_def)
  have shape: "take 5 (c # cs) = c # take 4 cs" "drop 5 (c # cs) = drop 4 cs"
    "(c # cs) ! 4 = cs ! 3"
    by (simp_all add: numeral_eq_Suc)
  show "match_sic_at prev (c # cs)"
    unfolding match_sic_at_def shape tk using b1 b2 len dig by simp
qed

lemma findall_sic_tokens:
  "\<not> is_word prev \<Longrightarrow> findall_sic prev s = filter five_digit (word_tokens s)"
proof (induction s arbitrary: prev rule: word_tokens.induct)
  case 1
  then show ?case by simp
next
  case (2 c cs)
  show ?case
  proof (cases "is_word_char c")
    case False
    then have "findall_sic prev (c # cs) = findall_sic (Some c) cs"
      by (simp add: no_match_nonword)
    also have "\<dots> = filter five_digit (word_tokens cs)"
      using False by (intro "2.IH"(2)) (simp_all add: is_word_def)
    finally show ?thesis using False by simp
  next
    case True
    let ?run = "c # takeWhile is_word_char cs"
    let ?rest = "dropWhile is_word_char cs"
    have rest: "findall_sic None ?rest = filter five_digit (word_tokens ?rest)"
      using True by (intro "2.IH"(1)) (simp_all add: is_word_def)
    have stop: "?rest = [] \<or> \<not> is_word_char (hd ?rest)" by (rule dropWhile_start)
    have in_run: "is_word_char p \<Longrightarrow> findall_sic (Some p) ?rest = findall_sic None ?rest" for p
      using findall_sic_skip [OF stop, of None] findall_sic_in_run [of p ?rest] by simp
    show ?thesis
    proof (cases "match_sic_at prev (c # cs)")
      case m: True
      then have five: "five_digit ?run"
        using match_sic_at_run [OF True "2.prems"] by simp
      then have l4: "length (takeWhile is_word_char cs) = 4" by (simp add: five_digit_def)
      have split: "takeWhile is_word_char cs @ ?rest = cs" by simp
      have tk: "take 4 cs = takeWhile is_word_char cs" and dr: "drop 4 cs = ?rest"
        using l4 append_eq_conv_conj [THEN iffD1, OF split] by simp_all
      have shape: "take 5 (c # cs) = ?run" "drop 5 (c # cs) = ?rest" "(c # cs) ! 4 = cs ! 3"
        by (simp_all add: numeral_eq_Suc tk [symmetric] dr [symmetric])
      have "is_digit (takeWhile is_word_char cs ! 3)"
        using five l4 by (intro digit_at_3) (auto simp: five_digit_def)
      then have "is_word_char (cs ! 3)"
        using l4 by (simp add: takeWhile_nth is_digit_word)
      then have "findall_sic (Some (cs ! 3)) ?rest = findall_sic None ?rest" by (rule in_run)
      then have "findall_sic prev (c # cs) = ?run # findall_sic None ?rest"
        using m by (simp only: findall_sic.simps if_True shape)
      then show ?thesis using True five rest by simp
    next
      case nm: False
      then have nofive: "\<not> five_digit ?run"
        using match_sic_at_run [OF True "2.prems"] by simp
      have "findall_sic prev (c # cs) = findall_sic (Some c) cs" using nm by simp
      also have "\<dots> = (case ?rest of [] \<Rightarrow> [] | d # ds \<Rightarrow> findall_sic (Some d) ds)"
        using True by (rule findall_sic_in_run)
      also have "\<dots> = findall_sic None ?rest" using stop by (rule findall_sic_skip)
      finally show ?thesis using True nofive rest by simp
    qed
  qed
qed


text \<open>
  Claim C7. For every text, classification-code extraction returns exactly the 5-digit
  tokens of the text (maximal runs of word characters that are five decimal digits),
  without repetitions and in the order they are first seen. The text
  "Nature of business: 73110, 62012 and 73110" gives 73110, 62012; the empty text and
  "Unknown" give the empty list.
\<close>

theorem extract_sic_codes_list_tokens:
  "extract_sic_codes_list text = five_digit_tokens_spec text
   \<and> extract_sic_codes_list ''Nature of business: 73110, 62012 and 73110''
       = [''73110'', ''62012'']
   \<and> extract_sic_codes_list '''' = []
   \<and> extract_sic_codes_list ''Unknown'' = []"
proof -
  have refines: "extract_sic_codes_list text = five_digit_tokens_spec text"
  proof (cases "text = [] \<or> text = ''Unknown''")
    case True
    then show ?thesis
      by (auto simp: extract_sic_codes_list_def five_digit_tokens_spec_def five_digit_def
          is_word_char_def)
  next
    case False
    then show ?thesis
      by (simp add: extract_sic_codes_list_def five_digit_tokens_spec_def
          dict_fromkeys_first_seen findall_sic_tokens is_word_def)
  qed
  have example: "extract_sic_codes_list ''Nature of business: 73110, 62012 and 73110''
      = [''73110'', ''62012'']"
    by code_simp
  have absent: "extract_sic_codes_list '''' = []" "extract_sic_codes_list ''Unknown'' = []"
    by (simp_all add: extract_sic_codes_list_def)
  show ?thesis using refines example absent by (intro conjI)
qed

text \<open>
  The configuration and the scraper object, with the fields the functions below read.
  \<open>config_sic_codes\<close> is \<open>BotConfig.sic_codes\<close> (the name \<open>sic_codes\<close> is the lead's
  field here). The constructor copies the configured codes into \<open>target_sic_codes\<close>.
\<close>

record BotConfig =
  target_location :: string
  config_sic_codes :: "string list"
  request_delay :: real
  screenshot_missing_data :: bool

record EliteWebScraper =
  config :: BotConfig
  target_sic_codes :: "string list"

text \<open>A configuration with the given target location and codes, the other fields at
  their defaults.\<close>

definition bot_config :: "string \<Rightarrow> string list \<Rightarrow> BotConfig" where
  "bot_config loc codes = \<lparr>target_location = loc, config_sic_codes = codes,
     request_delay = 2, screenshot_missing_data = True\<rparr>"

definition new_scraper :: "BotConfig \<Rightarrow> EliteWebScraper" where
  "new_scraper cfg = \<lparr>config = cfg, target_sic_codes = config_sic_codes cfg\<rparr>"

definition address_matches :: "EliteWebScraper \<Rightarrow> string \<Rightarrow> bool" where
  "address_matches self address =
     (let loc = py_lower (py_strip (target_location (config self)))
      in if loc = [] then True else py_contains loc (py_lower (py_strip address)))"

definition sic_matches_target :: "EliteWebScraper \<Rightarrow> string \<Rightarrow> bool" where
  "sic_matches_target self sic_text =
     (let target = set (target_sic_codes self)
      in if target = {} then True
         else let codes = set (extract_sic_codes_list sic_text)
              in target \<inter> codes \<noteq> {})"

text \<open>\<open>round(x, 2)\<close>: to the nearest hundredth, a tie to the even one.\<close>

definition round_half_even :: "rat \<Rightarrow> int" where
  "round_half_even x =
     (let f = \<lfloor>x\<rfloor>; d = x - of_int f
      in if d < 1 / 2 then f else if 1 / 2 < d then f + 1
         else if even f then f else f + 1)"

definition py_round2 :: "rat \<Rightarrow> rat" where
  "py_round2 x = of_int (round_half_even (x * 100)) / 100"

definition compute_icp_score :: "EliteWebScraper \<Rightarrow> string \<Rightarrow> string \<Rightarrow> rat" where
  "compute_icp_score self sic_text address =
     (let industry_match = (if sic_matches_target self sic_text then 1 else 0);
          geo_match = (if address_matches self address then 1 else 0)
      in py_round2 (7 / 10 * industry_match + 3 / 10 * geo_match))"

text \<open>
  The specification's words for the ICP score, from the target code set, the target
  location, the SIC text and the address: \<open>round(0.7 * industryMatch + 0.3 *
  locationMatch, 2)\<close>, the industry matching when the extracted codes meet the target
  set or that set is empty, the location matching when the lower-cased address contains
  the lower-cased target location or that string is empty.
\<close>

definition icp_score_spec :: "string list \<Rightarrow> string \<Rightarrow> string \<Rightarrow> string \<Rightarrow> rat" where
  "icp_score_spec target loc sic_text address =
     py_round2 (7 / 10 * (if set (extract_sic_codes_list sic_text) \<inter> set target \<noteq> {} \<or> target = []
                          then 1 else 0)
              + 3 / 10 * (if py_contains (py_lower loc) (py_lower address) \<or> loc = []
                          then 1 else 0))"

lemma py_contains_iff: "py_contains sub s \<longleftrightarrow> (\<exists>pre post. s = pre @ sub @ post)"
proof (induction s)
  case Nil
  then show ?case by auto
next
  case (Cons c cs)
  show ?case
  proof
    assume "py_contains sub (c # cs)"
    then consider "prefix sub (c # cs)" | "py_contains sub cs" by auto
    then show "\<exists>pre post. c # cs = pre @ sub @ post"
    proof cases
      case 1
      then obtain post where "c # cs = sub @ post" by (auto simp: prefix_def)
      then have "c # cs = [] @ sub @ post" by simp
      then show ?thesis by blast
    next
      case 2
      then obtain pre post where "cs = pre @ sub @ post" using Cons.IH by blast
      then have "c # cs = (c # pre) @ sub @ post" by simp
      then show ?thesis by blast
    qed
  next
    assume "\<exists>pre post. c # cs = pre @ sub @ post"
    then obtain pre post where eq: "c # cs = pre @ sub @ post" by blast
    show "py_contains sub (c # cs)"
    proof (cases pre)
      case Nil
      then have "prefix sub (c # cs)" using eq by (simp add: prefix_def)
      then show ?thesis by simp
    next
      case (Cons p ps)
      then have "cs = ps @ sub @ post" using eq by simp
      then have "py_contains sub cs" using Cons.IH by blast
      then show ?thesis by simp
    qed
  qed
qed

lemma dropWhile_keeps_occurrence:
  assumes "sub \<noteq> []" and "\<not> P (hd sub)"
  shows "\<exists>pre'. dropWhile P (pre @ sub @ post) = pre' @ sub @ post"
proof (induction pre)
  case Nil
  from assms obtain a as where "sub = a # as" "\<not> P a" by (cases sub) auto
  then have "dropWhile P ([] @ sub @ post) = [] @ sub @ post" by simp
  then show ?case by blast
next
  case (Cons x xs)
  then obtain pre' where IH: "dropWhile P (xs @ sub @ post) = pre' @ sub @ post" by blast
  show ?case
  proof (cases "P x")
    case True
    then show ?thesis using IH by auto
  next
    case False
    then have "dropWhile P ((x # xs) @ sub @ post) = (x # xs) @ sub @ post" by simp
    then show ?thesis by blast
  qed
qed

lemma rev_dropWhile_split:
  "xs = rev (dropWhile P (rev xs)) @ rev (takeWhile P (rev xs))"
proof -
  have "rev xs = takeWhile P (rev xs) @ dropWhile P (rev xs)" by simp
  then have "rev (rev xs) = rev (takeWhile P (rev xs) @ dropWhile P (rev xs))"
    by (rule arg_cong)
  then show ?thesis by (simp only: rev_rev_ident rev_append)
qed

lemma strip_parts: "\<exists>a b. s = a @ py_strip s @ b"
proof -
  let ?d = "dropWhile py_isspace s"
  have 1: "s = takeWhile py_isspace s @ ?d" by simp
  have 2: "?d = py_strip s @ rev (takeWhile py_isspace (rev ?d))"
    unfolding py_strip_def by (rule rev_dropWhile_split)
  from 1 2 have "s = takeWhile py_isspace s @ py_strip s @ rev (takeWhile py_isspace (rev ?d))"
    by simp
  then show ?thesis by blast
qed

lemma py_contains_strip:
  assumes ne: "sub \<noteq> []" and h: "\<not> py_isspace (hd sub)" and l: "\<not> py_isspace (last sub)"
  shows "py_contains sub (py_strip s) \<longleftrightarrow> py_contains sub s"
proof
  assume "py_contains sub (py_strip s)"
  then obtain pre post where "py_strip s = pre @ sub @ post"
    by (auto simp: py_contains_iff)
  moreover obtain a b where "s = a @ py_strip s @ b" using strip_parts by blast
  ultimately have "s = (a @ pre) @ sub @ (post @ b)" by simp
  then show "py_contains sub s" unfolding py_contains_iff by blast
next
  assume "py_contains sub s"
  then obtain pre post where s: "s = pre @ sub @ post" by (auto simp: py_contains_iff)
  obtain pre' where d: "dropWhile py_isspace (pre @ sub @ post) = pre' @ sub @ post"
    using dropWhile_keeps_occurrence [where P = py_isspace, OF ne h] by blast
  have rne: "rev sub \<noteq> []" and rh: "\<not> py_isspace (hd (rev sub))"
    using ne l by (simp_all add: hd_rev)
  obtain post' where
    r: "dropWhile py_isspace (rev post @ rev sub @ rev pre') = post' @ rev sub @ rev pre'"
    using dropWhile_keeps_occurrence [where P = py_isspace, OF rne rh] by blast
  have "py_strip s = pre' @ sub @ rev post'"
    by (simp add: py_strip_def s d r)
  then show "py_contains sub (py_strip s)" unfolding py_contains_iff by blast
qed

lemma isspace_lower_char: "py_isspace (py_lower_char c) = py_isspace c"
  by (auto simp: py_isspace_def py_lower_char_def Let_def)

lemma strip_lower: "py_strip (py_lower s) = py_lower (py_strip s)"
proof -
  have comp: "py_isspace \<circ> py_lower_char = py_isspace"
    by (rule ext) (simp add: isspace_lower_char)
  show ?thesis
    by (simp add: py_strip_def py_lower_def dropWhile_map rev_map comp)
qed

lemma strip_ends:
  assumes "py_strip s \<noteq> []"
  shows "\<not> py_isspace (hd (py_strip s))" and "\<not> py_isspace (last (py_strip s))"
proof -
  let ?d = "dropWhile py_isspace s"
  let ?r = "dropWhile py_isspace (rev ?d)"
  have ne: "?r \<noteq> []" using assms by (simp add: py_strip_def)
  then have "\<not> py_isspace (hd ?r)" by (rule hd_dropWhile)
  then show "\<not> py_isspace (last (py_strip s))"
    using ne by (simp add: py_strip_def last_rev)
  have dne: "?d \<noteq> []"
  proof
    assume e: "?d = []"
    have "?r = []" unfolding e by simp
    with ne show False by contradiction
  qed
  then have hd: "\<not> py_isspace (hd ?d)" by (rule hd_dropWhile)
  have "?d = rev ?r @ rev (takeWhile py_isspace (rev ?d))" by (rule rev_dropWhile_split)
  then have "hd ?d = hd (rev ?r)" using ne by (metis hd_append2 rev_is_Nil_conv)
  then show "\<not> py_isspace (hd (py_strip s))" using hd by (simp add: py_strip_def)
qed


lemma address_matches_trimmed:
  "address_matches self address =
     (py_contains (py_lower (py_strip (target_location (config self)))) (py_lower address)
      \<or> py_strip (target_location (config self)) = [])"
proof -
  let ?loc = "py_lower (py_strip (target_location (config self)))"
  show ?thesis
  proof (cases "?loc = []")
    case True
    then show ?thesis by (simp add: address_matches_def py_lower_def)
  next
    case False
    have loc: "?loc = py_strip (py_lower (target_location (config self)))"
      by (simp add: strip_lower)
    have ends: "\<not> py_isspace (hd ?loc)" "\<not> py_isspace (last ?loc)"
      using False unfolding loc by (rule strip_ends)+
    have "py_contains ?loc (py_lower (py_strip address))
        = py_contains ?loc (py_strip (py_lower address))"
      by (simp add: strip_lower)
    also have "\<dots> = py_contains ?loc (py_lower address)"
      using False ends by (rule py_contains_strip)
    finally show ?thesis using False by (simp add: address_matches_def py_lower_def)
  qed
qed

lemma py_round2_weights:
  "py_round2 0 = 0" "py_round2 (3 / 10) = 3 / 10" "py_round2 (7 / 10) = 7 / 10"
  "py_round2 1 = 1"
  by (simp_all add: py_round2_def round_half_even_def)

text \<open>
  Claim C5, amended. The ICP score is the specification's formula applied to the
  configured target location with its leading and trailing whitespace removed: the
  location matches when the lower-cased address contains the lower-cased trimmed target
  location, or the target location is empty after trimming. Rounding to two decimals
  changes nothing: the score is 0.7 times the industry match plus 0.3 times the location
  match. With target codes 73110 and location "london", a record with code 73110 at
  "1 High St, London" scores 1, and a record matching neither scores 0.
\<close>

theorem compute_icp_score_trimmed_location:
  "compute_icp_score self sic_text address
     = icp_score_spec (target_sic_codes self) (py_strip (target_location (config self)))
         sic_text address
   \<and> compute_icp_score self sic_text address
     = 7 / 10 * (if sic_matches_target self sic_text then 1 else 0)
       + 3 / 10 * (if address_matches self address then 1 else 0)
   \<and> compute_icp_score
        (new_scraper (bot_config ''london'' [''73110''])) ''73110'' ''1 High St, London'' = 1
   \<and> compute_icp_score
        (new_scraper (bot_config ''london'' [''73110''])) ''62012'' ''2 Low St, Leeds'' = 0"
proof -
  have industry: "sic_matches_target self sic_text
      = (set (extract_sic_codes_list sic_text) \<inter> set (target_sic_codes self) \<noteq> {}
         \<or> target_sic_codes self = [])"
    by (auto simp: sic_matches_target_def Let_def)
  have formula: "compute_icp_score self sic_text address
      = icp_score_spec (target_sic_codes self) (py_strip (target_location (config self)))
          sic_text address"
    by (simp only: compute_icp_score_def icp_score_spec_def Let_def industry
        address_matches_trimmed)
  have exact: "compute_icp_score self sic_text address
      = 7 / 10 * (if sic_matches_target self sic_text then 1 else 0)
        + 3 / 10 * (if address_matches self address then 1 else 0)"
    by (simp add: compute_icp_score_def py_round2_weights)
  have hit: "compute_icp_score
        (new_scraper (bot_config ''london'' [''73110''])) ''73110'' ''1 High St, London'' = 1"
    by code_simp
  have miss: "compute_icp_score
        (new_scraper (bot_config ''london'' [''73110''])) ''62012'' ''2 Low St, Leeds'' = 0"
    by code_simp
  show ?thesis using formula exact hit miss by (intro conjI)
qed

theorem compute_icp_score_trimmed_location_witness:
  "icp_score_spec [''73110''] (py_strip '' London '') ''62012'' ''1 High St, London'' = 3 / 10"
proof -
  let ?self = "new_scraper (bot_config '' London '' [''73110''])"
  have run: "compute_icp_score ?self ''62012'' ''1 High St, London'' = 3 / 10"
    by code_simp
  have "compute_icp_score ?self ''62012'' ''1 High St, London''
      = icp_score_spec (target_sic_codes ?self) (py_strip (target_location (config ?self)))
          ''62012'' ''1 High St, London''"
    using compute_icp_score_trimmed_location [of ?self "''62012''" "''1 High St, London''"]
    by (rule conjunct1)
  then show ?thesis using run by (simp add: new_scraper_def bot_config_def)
qed

text \<open>
  Claim C5 as stated fails for a configured location with surrounding whitespace: with
  the target location "London " the code trims it and scores the London address 1, where
  the formula on the untrimmed string gives 0.7.
\<close>

theorem icp_score_untrimmed_location_counterexample:
  "compute_icp_score
     (new_scraper (bot_config ''London '' [''73110''])) ''73110'' ''1 High St, London'' = 1
   \<and> icp_score_spec [''73110''] ''London '' ''73110'' ''1 High St, London'' = 7 / 10"
  by code_simp

section \<open>Selector configuration (scraper.py)\<close>

text \<open>
  A selector configuration is what \<open>json.load\<close> returns: a dictionary is an association
  list in insertion order, \<open>key in d\<close> is membership among the keys, \<open>d[key]\<close> is
  \<open>map_of\<close>, and \<open>merged[key] = v\<close> replaces the value in place or appends a new key.
  \<open>merge_defaults\<close> is the first loop of \<open>_merge_selectors\<close> (over the items of the
  defaults), the fold is the second (over the keys of the loaded file). The parameter
  \<open>default\<close> is written \<open>defaults\<close>.
\<close>

datatype json = JNull | JBool bool | JNum rat | JStr string
  | JList "json list" | JDict "(string \<times> json) list"

type_synonym selectors = "(string \<times> json) list"

function merge_selectors :: "selectors \<Rightarrow> selectors \<Rightarrow> selectors"
  and merge_defaults :: "selectors \<Rightarrow> selectors \<Rightarrow> selectors \<Rightarrow> selectors"
where
  "merge_selectors loaded defaults =
     fold (\<lambda>(key, lv) merged.
             if key \<notin> fst ` set defaults then AList.update key lv merged else merged)
          loaded (merge_defaults loaded defaults [])"
| "merge_defaults loaded [] merged = merged"
| "merge_defaults loaded ((key, v) # rest) merged =
     merge_defaults loaded rest
       (AList.update key
          (case map_of loaded key of
             Some lv \<Rightarrow>
               (case (v, lv) of
                  (JDict d, JDict l) \<Rightarrow> JDict (merge_selectors l d)
                | _ \<Rightarrow> lv)
           | None \<Rightarrow> v)
          merged)"
  by pat_completeness auto
termination
  by (relation "measure (\<lambda>x. case x of Inl (l, d) \<Rightarrow> 2 * size_list (size_prod (\<lambda>_. 0) size) d + 1
                                   | Inr (l, d, m) \<Rightarrow> 2 * size_list (size_prod (\<lambda>_. 0) size) d)")
     auto

text \<open>The value stored under a key of the defaults: the branches of the first loop.\<close>

definition override_value :: "selectors \<Rightarrow> string \<Rightarrow> json \<Rightarrow> json" where
  "override_value loaded key v =
     (case map_of loaded key of
        Some lv \<Rightarrow>
          (case (v, lv) of
             (JDict d, JDict l) \<Rightarrow> JDict (merge_selectors l d)
           | _ \<Rightarrow> lv)
      | None \<Rightarrow> v)"

lemma update_absent_key: "key \<notin> fst ` set al \<Longrightarrow> AList.update key v al = al @ [(key, v)]"
  by (induction al) auto

lemma merge_defaults_append:
  assumes "distinct (map fst ds)" and "fst ` set ds \<inter> fst ` set merged = {}"
  shows "merge_defaults loaded ds merged
     = merged @ map (\<lambda>(key, v). (key, override_value loaded key v)) ds"
  using assms
proof (induction ds arbitrary: merged)
  case Nil
  then show ?case by simp
next
  case (Cons kv rest)
  obtain key v where kv: "kv = (key, v)" by (cases kv)
  let ?x = "override_value loaded key v"
  have fresh: "key \<notin> fst ` set merged" using Cons.prems(2) kv by auto
  then have upd: "AList.update key ?x merged = merged @ [(key, ?x)]"
    by (rule update_absent_key)
  have d: "distinct (map fst rest)" using Cons.prems(1) by simp
  have disj: "fst ` set rest \<inter> fst ` set (merged @ [(key, ?x)]) = {}"
    using Cons.prems kv by auto
  have "merge_defaults loaded (kv # rest) merged
      = merge_defaults loaded rest (AList.update key ?x merged)"
    by (simp add: kv override_value_def)
  also have "\<dots> = (merged @ [(key, ?x)])
      @ map (\<lambda>(key, v). (key, override_value loaded key v)) rest"
    unfolding upd using d disj by (rule Cons.IH)
  finally show ?case by (simp add: kv)
qed

lemma fold_extra_append:
  assumes "distinct (map fst loaded)"
    and "\<forall>key \<in> fst ` set loaded. key \<notin> ks \<longrightarrow> key \<notin> fst ` set acc"
  shows "fold (\<lambda>(key, lv) merged.
             if key \<notin> ks then AList.update key lv merged else merged) loaded acc
     = acc @ filter (\<lambda>(key, lv). key \<notin> ks) loaded"
  using assms
proof (induction loaded arbitrary: acc)
  case Nil
  then show ?case by simp
next
  case (Cons kv rest)
  obtain key lv where kv: "kv = (key, lv)" by (cases kv)
  have d: "distinct (map fst rest)" and notin: "key \<notin> fst ` set rest"
    using Cons.prems(1) kv by auto
  show ?case
  proof (cases "key \<in> ks")
    case True
    have "\<forall>k \<in> fst ` set rest. k \<notin> ks \<longrightarrow> k \<notin> fst ` set acc"
      using Cons.prems(2) by auto
    from Cons.IH [OF d this] show ?thesis using True by (simp add: kv)
  next
    case False
    then have fresh: "key \<notin> fst ` set acc" using Cons.prems(2) kv by auto
    then have upd: "AList.update key lv acc = acc @ [(key, lv)]" by (rule update_absent_key)
    have "\<forall>k \<in> fst ` set rest. k \<notin> ks \<longrightarrow> k \<notin> fst ` set (acc @ [(key, lv)])"
      using Cons.prems(2) notin by auto
    from Cons.IH [OF d this] show ?thesis using False by (simp add: kv upd)
  qed
qed

text \<open>
  Claim C6. For every pair of selector mappings, the merge lists the keys of the defaults
  in their order and then the keys found only in the override in theirs. Under a key of
  the defaults with no override counterpart the default value stays; under a key the
  override has too, the override's value stands, unless both values are mappings, which
  are merged by the same function. (Dictionaries have distinct keys.)
\<close>

theorem merge_selectors_override_wins:
  assumes "distinct (map fst defaults)" and "distinct (map fst loaded)"
  shows "merge_selectors loaded defaults
     = map (\<lambda>(key, v). (key, override_value loaded key v)) defaults
       @ filter (\<lambda>(key, lv). key \<notin> fst ` set defaults) loaded"
proof -
  let ?base = "map (\<lambda>(key, v). (key, override_value loaded key v)) defaults"
  have base: "merge_defaults loaded defaults [] = ?base"
    using merge_defaults_append [OF assms(1), of "[]" loaded] by simp
  have keys: "fst ` set ?base = fst ` set defaults" by force
  have "\<forall>key \<in> fst ` set loaded. key \<notin> fst ` set defaults \<longrightarrow> key \<notin> fst ` set ?base"
    unfolding keys by simp
  from fold_extra_append [OF assms(2) this] show ?thesis by (simp add: base)
qed

theorem merge_selectors_override_wins_witness:
  "merge_selectors
     [(''a'', JStr ''x''), (''n'', JDict [(''q'', JNum 1)]), (''z'', JNull)]
     [(''n'', JDict [(''p'', JNum 0), (''q'', JNum 0)]), (''a'', JDict []), (''b'', JNum 2)]
   = [(''n'', JDict [(''p'', JNum 0), (''q'', JNum 1)]), (''a'', JStr ''x''),
      (''b'', JNum 2), (''z'', JNull)]"
proof -
  let ?loaded = "[(''a'', JStr ''x''), (''n'', JDict [(''q'', JNum 1)]), (''z'', JNull)]"
  let ?defaults = "[(''n'', JDict [(''p'', JNum 0), (''q'', JNum 0)]), (''a'', JDict []),
                    (''b'', JNum 2)]"
  have d: "distinct (map fst ?defaults)" and l: "distinct (map fst ?loaded)" by simp_all
  have inner: "merge_selectors [(''q'', JNum 1)] [(''p'', JNum 0), (''q'', JNum 0)]
      = [(''p'', JNum 0), (''q'', JNum 1)]"
    using merge_selectors_override_wins [of "[(''p'', JNum 0), (''q'', JNum 0)]" "[(''q'', JNum 1)]"]
    by (simp add: override_value_def)
  show ?thesis
    using merge_selectors_override_wins [OF d l] by (simp add: override_value_def inner)
qed

section \<open>Decision-maker inference (scraper.py)\<close>

text \<open>
  \<open>dict_get\<close> is \<open>o.get(key)\<close>: \<open>None\<close> for a missing key. \<open>choose_ceo_loop\<close> is the
  \<open>for\<close> loop of \<open>_choose_ceo_from_officers\<close>, \<open>None\<close> when it falls through. The
  parameter \<open>officers\<close> is written \<open>officer_list\<close>.
\<close>

definition dict_get :: "officer \<Rightarrow> string \<Rightarrow> string option" where
  "dict_get d key = (case map_of d key of None \<Rightarrow> None | Some v \<Rightarrow> v)"

definition preferred :: "string list" where
  "preferred = [''chief executive officer'', ''chief executive'', ''ceo'',
                ''managing director'', ''director'', ''owner'', ''founder'', ''proprietor'']"

fun choose_ceo_loop :: "officer list \<Rightarrow> string option" where
  "choose_ceo_loop [] = None"
| "choose_ceo_loop (off # rest) =
     (let role = py_lower (or_empty (dict_get off ''role''));
          name = py_strip (or_empty (dict_get off ''name''))
      in if list_ex (\<lambda>p. py_contains p role) preferred \<and> name \<noteq> [] then Some name
         else choose_ceo_loop rest)"

definition choose_ceo_from_officers :: "officer list \<Rightarrow> string option" where
  "choose_ceo_from_officers officer_list =
     (if officer_list = [] then None
      else case choose_ceo_loop officer_list of
             Some name \<Rightarrow> Some name
           | None \<Rightarrow> (case officer_list of [] \<Rightarrow> None | off # _ \<Rightarrow> dict_get off ''name''))"

text \<open>
  The specification's words: an officer holds a title of a class when the lower-cased
  role contains one of the class's keywords (and the officer has a name); the classes
  are tried in priority order, the first officer holding a title of the first class that
  anyone holds is picked, and the first officer's name is the fallback.
\<close>

definition has_title :: "string list \<Rightarrow> officer \<Rightarrow> bool" where
  "has_title titles off =
     (list_ex (\<lambda>p. py_contains p (py_lower (or_empty (dict_get off ''role'')))) titles
      \<and> py_strip (or_empty (dict_get off ''name'')) \<noteq> [])"

definition title_priority :: "string list list" where
  "title_priority = [[''chief executive officer'', ''chief executive'', ''ceo''],
                     [''managing director''], [''director''],
                     [''owner'', ''founder'', ''proprietor'']]"

fun most_senior_spec :: "string list list \<Rightarrow> officer list \<Rightarrow> string option" where
  "most_senior_spec [] officer_list =
     (case officer_list of [] \<Rightarrow> None | off # _ \<Rightarrow> dict_get off ''name'')"
| "most_senior_spec (titles # lower) officer_list =
     (case find (has_title titles) officer_list of
        Some off \<Rightarrow> Some (py_strip (or_empty (dict_get off ''name'')))
      | None \<Rightarrow> most_senior_spec lower officer_list)"

lemma choose_ceo_loop_find:
  "choose_ceo_loop officer_list =
     (case find (has_title preferred) officer_list of
        Some off \<Rightarrow> Some (py_strip (or_empty (dict_get off ''name'')))
      | None \<Rightarrow> None)"
  by (induction officer_list) (simp_all add: has_title_def Let_def)

text \<open>
  Claim C8, amended. Decision-maker inference treats the eight title keywords as one
  class: it returns the trimmed name of the first officer in list order whose lower-cased
  role contains any of them and whose trimmed name is not empty, whatever more senior
  title a later officer holds; when no officer qualifies it returns the name entry of
  the first officer, and for an empty list no name.
\<close>

theorem choose_ceo_first_titled_officer:
  "choose_ceo_from_officers officer_list = most_senior_spec [preferred] officer_list
   \<and> choose_ceo_from_officers [] = None"
  by (cases officer_list) (simp_all add: choose_ceo_from_officers_def choose_ceo_loop_find
      split: option.splits)

text \<open>
  Claim C8 as stated fails: with a director listed before the chief executive officer,
  the code returns the director, the priority order of titles the chief executive.
\<close>

theorem choose_ceo_priority_counterexample:
  "choose_ceo_from_officers
     [[(''name'', Some ''Bob''), (''role'', Some ''Director'')],
      [(''name'', Some ''Alice''), (''role'', Some ''Chief Executive Officer'')]]
     = Some ''Bob''
   \<and> most_senior_spec title_priority
     [[(''name'', Some ''Bob''), (''role'', Some ''Director'')],
      [(''name'', Some ''Alice''), (''role'', Some ''Chief Executive Officer'')]]
     = Some ''Alice''"
  by code_simp

section \<open>Enrichment and orchestration (scraper.py)\<close>

text \<open>
  Enrichment reads the network. What the network and the parsing libraries answer is the
  environment \<open>outside\<close>; what the code does with the answers is modelled:
  \<^item> \<open>netloc\<close> is \<open>urlparse(url).netloc\<close>;
  \<^item> \<open>guess_website_via_search\<close> is the result of \<open>_guess_website_via_search\<close>, which
    catches its own errors;
  \<^item> \<open>http_harvest\<close> is what \<open>_enrich_via_http\<close> finds on the pages of a lead's website
    (the first valid phone number and email address), or the exception that escapes it;
  \<^item> \<open>maybe_find_ceo_linkedin\<close> is the result of the profile search;
  \<^item> \<open>capture_screenshots\<close> gives, by position in the list, the path of the screenshot
    saved for a lead, or the exception that escapes the browser.
  A raised exception is \<open>Inl\<close>.
\<close>

datatype exn = Exception string

record harvest =
  found_phone :: "string option"
  found_email :: "string option"

record outside =
  netloc :: "string \<Rightarrow> string"
  guess_website_via_search :: "string \<Rightarrow> string \<Rightarrow> string option"
  http_harvest :: "Lead \<Rightarrow> exn + harvest"
  maybe_find_ceo_linkedin :: "string \<Rightarrow> string \<Rightarrow> exn + string option"
  capture_screenshots :: "Lead list \<Rightarrow> exn + (nat \<Rightarrow> string option)"

text \<open>\<open>_harvest_contacts_from_html\<close> fills a phone number or an email address only
  where the lead has none, and marks what it fills as verified.\<close>

definition apply_harvest :: "Lead \<Rightarrow> harvest \<Rightarrow> Lead" where
  "apply_harvest lead h =
     (let lead1 = (case found_phone h of
                     Some p \<Rightarrow> if truthy_str (phone_number lead) then lead
                               else lead\<lparr>phone_number := Some p, phone_verified := True\<rparr>
                   | None \<Rightarrow> lead)
      in case found_email h of
           Some e \<Rightarrow> if truthy_str (email lead1) then lead1
                     else lead1\<lparr>email := Some e, email_verified := True\<rparr>
         | None \<Rightarrow> lead1)"

definition enrich_via_http :: "outside \<Rightarrow> Lead \<Rightarrow> exn + Lead" where
  "enrich_via_http env lead =
     (if website lead = [] then Inr lead
      else case http_harvest env lead of
             Inl e \<Rightarrow> Inl e
           | Inr h \<Rightarrow> Inr (apply_harvest lead h))"

text \<open>The four steps of \<open>enrich_lead_data\<close>: website discovery, contact harvesting,
  decision-maker inference (its \<open>try\<close> block swallows a failed profile search and keeps
  the name already stored), scoring and filtering.\<close>

definition ch_domains :: "string list" where
  "ch_domains = [''find-and-update.company-information.service.gov.uk'',
                 ''companieshouse.gov.uk'']"

definition discover_website :: "outside \<Rightarrow> Lead \<Rightarrow> Lead" where
  "discover_website env lead =
     (let website_host = (if website lead \<noteq> [] then py_lower (netloc env (website lead))
                          else [])
      in if website lead = [] \<or> list_ex (\<lambda>h. py_contains h website_host) ch_domains
         then (case guess_website_via_search env (company_name lead) (location lead) of
                 Some guessed \<Rightarrow> if guessed \<noteq> [] then lead\<lparr>website := guessed\<rparr> else lead
               | None \<Rightarrow> lead)
         else lead)"

definition infer_ceo :: "outside \<Rightarrow> Lead \<Rightarrow> Lead" where
  "infer_ceo env lead =
     (case choose_ceo_from_officers (officers lead) of
        None \<Rightarrow> lead
      | Some ceo \<Rightarrow>
          if ceo = [] then lead
          else let lead1 = lead\<lparr>ceo_name := Some ceo\<rparr>
               in if truthy_str (ceo_linkedin lead1) then lead1
                  else (case maybe_find_ceo_linkedin env (company_name lead1) ceo of
                          Inl e \<Rightarrow> lead1
                        | Inr found \<Rightarrow> lead1\<lparr>ceo_linkedin := found\<rparr>))"

text \<open>\<open>any(o.get('role', '').lower() in [...] for o in officers)\<close>: a role stored as
  \<open>None\<close> has no \<open>lower\<close>, and the exception leaves the task.\<close>

fun senior_officer_present :: "officer list \<Rightarrow> exn + bool" where
  "senior_officer_present [] = Inr False"
| "senior_officer_present (off # rest) =
     (case map_of off ''role'' of
        Some None \<Rightarrow> Inl (Exception ''AttributeError'')
      | Some (Some role) \<Rightarrow>
          if py_lower role \<in> set [''director'', ''ceo'', ''managing director'']
          then Inr True else senior_officer_present rest
      | None \<Rightarrow> senior_officer_present rest)"

text \<open>\<open>s.split(sep)\<close> for a separator that is not empty.\<close>

function py_split_from :: "string \<Rightarrow> string \<Rightarrow> string \<Rightarrow> string list" where
  "py_split_from sep cur [] = [cur]"
| "py_split_from sep cur (c # cs) =
     (if sep \<noteq> [] \<and> prefix sep (c # cs)
      then cur # py_split_from sep [] (drop (length sep) (c # cs))
      else py_split_from sep (cur @ [c]) cs)"
  by pat_completeness auto
termination
  by (relation "measure (\<lambda>(sep, cur, s). length s)") (auto simp: neq_Nil_conv)

definition py_split :: "string \<Rightarrow> string \<Rightarrow> string list" where
  "py_split s sep = py_split_from sep [] s"

definition pain_points_for :: "Lead \<Rightarrow> Lead" where
  "pain_points_for lead =
     (let codes = (if truthy_str (sic_codes lead) then py_split (or_empty (sic_codes lead)) '', ''
                   else [])
      in if ''73110'' \<in> set codes
         then lead\<lparr>pain_points := [''Lead generation efficiency'',
                 ''Attribution/ROI visibility'', ''Scaling paid media profitably'']\<rparr>
         else if ''62012'' \<in> set codes
         then lead\<lparr>pain_points := [''Technical debt management'', ''Scalability issues'',
                 ''Talent acquisition challenges'']\<rparr>
         else lead)"

definition score_and_filter :: "EliteWebScraper \<Rightarrow> Lead \<Rightarrow> exn + Lead" where
  "score_and_filter self lead =
     (let lead1 = (if ideal_customer_profile_match lead = 0
                   then lead\<lparr>ideal_customer_profile_match :=
                          compute_icp_score self (or_empty (sic_codes lead)) (location lead)\<rparr>
                   else lead)
      in case senior_officer_present (officers lead1) of
           Inl e \<Rightarrow> Inl e
         | Inr senior \<Rightarrow>
             let lead2 = (if senior
                          then lead1\<lparr>ideal_customer_profile_match :=
                                 min 1 (ideal_customer_profile_match lead1 + 2 / 10)\<rparr>
                          else lead1);
                 lead3 = pain_points_for lead2
             in if config_sic_codes (config self) \<noteq> []
                   \<and> \<not> sic_matches_target self (or_empty (sic_codes lead3))
                then Inr (lead3\<lparr>data_quality_score := - 1\<rparr>)
                else Inr (calculate_quality_score lead3))"

definition enrich_lead_data :: "EliteWebScraper \<Rightarrow> outside \<Rightarrow> Lead \<Rightarrow> exn + Lead" where
  "enrich_lead_data self env lead =
     (case enrich_via_http env (discover_website env lead) of
        Inl e \<Rightarrow> Inl e
      | Inr lead2 \<Rightarrow> score_and_filter self (infer_ceo env lead2))"

text \<open>
  \<open>run_scraper\<close> from the deduplication on; \<open>all_leads\<close> are the raw records gathered
  from the sources. \<open>gather\<close> is \<open>asyncio.gather(*tasks, return_exceptions=True)\<close>: one
  result per task, in task order, an exception being a result. \<open>collect_results\<close> is the
  loop over the results, with the messages it logs. \<open>py_sort_reverse\<close> is
  \<open>list.sort(key=..., reverse=True)\<close>, which reverses, sorts stably and reverses back.
\<close>

definition lead_key :: "Lead \<Rightarrow> string" where
  "lead_key lead = py_lower (py_strip (company_name lead))"

fun dedup_loop :: "Lead list \<Rightarrow> string set \<Rightarrow> Lead list \<Rightarrow> Lead list" where
  "dedup_loop [] seen unique_leads = unique_leads"
| "dedup_loop (lead # rest) seen unique_leads =
     (let key = lead_key lead
      in if key \<noteq> [] \<and> key \<notin> seen
         then dedup_loop rest (insert key seen) (unique_leads @ [lead])
         else dedup_loop rest seen unique_leads)"

definition deduplicate :: "Lead list \<Rightarrow> Lead list" where
  "deduplicate all_leads = dedup_loop all_leads {} []"

definition gather :: "('a \<Rightarrow> exn + 'b) \<Rightarrow> 'a list \<Rightarrow> (exn + 'b) list" where
  "gather task xs = map task xs"

datatype log_entry = EnrichmentFailed exn

fun collect_results :: "(exn + Lead) list \<Rightarrow> Lead list \<Rightarrow> log_entry list
    \<Rightarrow> Lead list \<times> log_entry list" where
  "collect_results [] enriched_leads logged = (enriched_leads, logged)"
| "collect_results (result # rest) enriched_leads logged =
     (case result of
        Inl e \<Rightarrow> collect_results rest enriched_leads (logged @ [EnrichmentFailed e])
      | Inr lead \<Rightarrow>
          if 0 \<le> data_quality_score lead
          then collect_results rest (enriched_leads @ [lead]) logged
          else collect_results rest enriched_leads logged)"

definition put_screenshots :: "(nat \<Rightarrow> string option) \<Rightarrow> Lead list \<Rightarrow> Lead list" where
  "put_screenshots shots leads =
     map (\<lambda>(i, lead). case shots i of
                          Some path \<Rightarrow> lead\<lparr>screenshot_path := Some path\<rparr>
                        | None \<Rightarrow> lead) (enumerate 0 leads)"

definition capture_missing_screenshots_async ::
    "EliteWebScraper \<Rightarrow> outside \<Rightarrow> Lead list \<Rightarrow> exn + Lead list" where
  "capture_missing_screenshots_async self env leads =
     (if \<not> screenshot_missing_data (config self) then Inr leads
      else case capture_screenshots env leads of
             Inl e \<Rightarrow> Inl e
           | Inr shots \<Rightarrow> Inr (put_screenshots shots leads))"

definition py_sort_reverse :: "('a \<Rightarrow> int) \<Rightarrow> 'a list \<Rightarrow> 'a list" where
  "py_sort_reverse key xs = rev (sort_key key (rev xs))"

definition run_scraper :: "EliteWebScraper \<Rightarrow> outside \<Rightarrow> Lead list
    \<Rightarrow> exn + Lead list \<times> log_entry list" where
  "run_scraper self env all_leads =
     (if all_leads = [] then Inr ([], [])
      else let unique_leads = deduplicate all_leads;
               results = gather (enrich_lead_data self env) unique_leads;
               (enriched_leads, logged) = collect_results results [] []
           in case capture_missing_screenshots_async self env enriched_leads of
                Inl e \<Rightarrow> Inl e
              | Inr shot \<Rightarrow> Inr (py_sort_reverse data_quality_score shot, logged))"

text \<open>The results of the tasks that returned, the exceptions of those that raised, a lead
  with its screenshot path cleared, and the enriched leads that pass the final filter.\<close>

fun successes :: "(exn + 'a) list \<Rightarrow> 'a list" where
  "successes [] = []"
| "successes (Inl e # rest) = successes rest"
| "successes (Inr x # rest) = x # successes rest"

fun failures :: "(exn + 'a) list \<Rightarrow> exn list" where
  "failures [] = []"
| "failures (Inl e # rest) = e # failures rest"
| "failures (Inr x # rest) = failures rest"

definition without_screenshot :: "Lead \<Rightarrow> Lead" where
  "without_screenshot lead = lead\<lparr>screenshot_path := None\<rparr>"

definition kept_leads :: "EliteWebScraper \<Rightarrow> outside \<Rightarrow> Lead list \<Rightarrow> Lead list" where
  "kept_leads self env all_leads =
     filter (\<lambda>lead. 0 \<le> data_quality_score lead)
       (successes (gather (enrich_lead_data self env) (deduplicate all_leads)))"

text \<open>The specification's words for deduplication: a record survives when no record
  before it has the same key.\<close>

definition first_occurrences_spec :: "Lead list \<Rightarrow> Lead list" where
  "first_occurrences_spec leads =
     map (\<lambda>i. leads ! i)
       (filter (\<lambda>i. lead_key (leads ! i) \<notin> lead_key ` set (take i leads)) [0..<length leads])"

text \<open>Environments and records for the concrete runs: a network that finds nothing, one
  whose pages make the harvesting of one company raise, and four records.\<close>

definition offline :: outside where
  "offline = \<lparr>netloc = (\<lambda>url. ''acme.example''),
     guess_website_via_search = (\<lambda>name loc. None),
     http_harvest = (\<lambda>lead. Inr \<lparr>found_phone = None, found_email = None\<rparr>),
     maybe_find_ceo_linkedin = (\<lambda>name ceo. Inr None),
     capture_screenshots = (\<lambda>leads. Inr (\<lambda>i. None))\<rparr>"

definition broken_pages :: outside where
  "broken_pages = offline\<lparr>http_harvest := (\<lambda>lead.
     if company_name lead = ''Bad Ltd'' then Inl (Exception ''re.error'')
     else Inr \<lparr>found_phone = None, found_email = None\<rparr>)\<rparr>"

definition software_house :: Lead where
  "software_house = (new_lead ''Byte Ltd'' ''https://byte.example'' ''1 High St, London''
      ''Companies House'' 10)\<lparr>sic_codes := Some ''62012''\<rparr>"

definition ad_agency :: Lead where
  "ad_agency = (new_lead ''Advert Ltd'' ''https://advert.example'' ''2 High St, London''
      ''Companies House'' 20)\<lparr>sic_codes := Some ''73110''\<rparr>"

definition bad_lead :: Lead where
  "bad_lead = new_lead ''Bad Ltd'' ''https://bad.example'' ''London'' ''Clutch.co'' 10"

definition good_lead :: Lead where
  "good_lead = new_lead ''Good Ltd'' ''https://good.example'' ''London'' ''Clutch.co'' 20"

lemma dedup_loop_acc:
  "dedup_loop xs seen unique_leads = unique_leads @ dedup_loop xs seen []"
proof (induction xs arbitrary: seen unique_leads)
  case Nil
  then show ?case by simp
next
  case (Cons x xs)
  show ?case
    using Cons.IH [of "insert (lead_key x) seen" "unique_leads @ [x]"]
      Cons.IH [of "insert (lead_key x) seen" "[x]"] Cons.IH [of seen unique_leads]
    by (simp add: Let_def)
qed

lemma dedup_loop_append:
  "dedup_loop (xs @ ys) seen unique_leads
     = dedup_loop ys (seen \<union> {k \<in> lead_key ` set xs. k \<noteq> []}) (dedup_loop xs seen unique_leads)"
proof (induction xs arbitrary: seen unique_leads)
  case Nil
  then show ?case by simp
next
  case (Cons x xs)
  let ?k = "lead_key x"
  show ?case
  proof (cases "?k \<noteq> [] \<and> ?k \<notin> seen")
    case True
    have s: "insert ?k seen \<union> {k \<in> lead_key ` set xs. k \<noteq> []}
        = seen \<union> {k \<in> lead_key ` set (x # xs). k \<noteq> []}"
      using True by auto
    show ?thesis using True Cons.IH [of "insert ?k seen" "unique_leads @ [x]"]
      by (simp add: Let_def s del: Un_insert_left)
  next
    case False
    have s: "seen \<union> {k \<in> lead_key ` set xs. k \<noteq> []}
        = seen \<union> {k \<in> lead_key ` set (x # xs). k \<noteq> []}"
      using False by auto
    show ?thesis using False Cons.IH [of seen unique_leads]
      by (simp only: append_Cons dedup_loop.simps Let_def if_False s)
  qed
qed

lemma deduplicate_snoc:
  "deduplicate (pre @ [lead])
     = deduplicate pre
       @ (if lead_key lead \<noteq> [] \<and> lead_key lead \<notin> lead_key ` set pre then [lead] else [])"
proof -
  have "deduplicate (pre @ [lead])
      = dedup_loop [lead] {k \<in> lead_key ` set pre. k \<noteq> []} (deduplicate pre)"
    by (simp add: deduplicate_def dedup_loop_append)
  also have "\<dots> = deduplicate pre @ dedup_loop [lead] {k \<in> lead_key ` set pre. k \<noteq> []} []"
    by (rule dedup_loop_acc)
  finally show ?thesis by (auto simp: Let_def)
qed

lemma first_occurrences_spec_snoc:
  "first_occurrences_spec (pre @ [lead])
     = first_occurrences_spec pre
       @ (if lead_key lead \<notin> lead_key ` set pre then [lead] else [])"
proof -
  have old: "filter (\<lambda>i. lead_key ((pre @ [lead]) ! i)
                 \<notin> lead_key ` set (take i (pre @ [lead]))) [0..<length pre]
      = filter (\<lambda>i. lead_key (pre ! i) \<notin> lead_key ` set (take i pre)) [0..<length pre]"
    by (rule filter_cong) (auto simp: nth_append)
  have old_map: "map (\<lambda>i. (pre @ [lead]) ! i) js = map (\<lambda>i. pre ! i) js"
    if "set js \<subseteq> {0..<length pre}" for js
    using that by (intro map_cong) (auto simp: nth_append)
  have "set (filter (\<lambda>i. lead_key (pre ! i) \<notin> lead_key ` set (take i pre)) [0..<length pre])
      \<subseteq> {0..<length pre}" by auto
  note m = old_map [OF this]
  have idx: "[0..<length (pre @ [lead])] = [0..<length pre] @ [length pre]" by simp
  have newest: "map (\<lambda>i. (pre @ [lead]) ! i)
        (filter (\<lambda>i. lead_key ((pre @ [lead]) ! i)
                 \<notin> lead_key ` set (take i (pre @ [lead]))) [length pre])
      = (if lead_key lead \<notin> lead_key ` set pre then [lead] else [])"
    by simp
  show ?thesis
    unfolding first_occurrences_spec_def idx filter_append map_append old m newest ..
qed

lemma deduplicate_first_nonempty:
  "deduplicate all_leads
     = first_occurrences_spec (filter (\<lambda>lead. lead_key lead \<noteq> []) all_leads)"
proof (induction all_leads rule: rev_induct)
  case Nil
  then show ?case by (simp add: deduplicate_def first_occurrences_spec_def)
next
  case (snoc lead pre)
  show ?case
  proof (cases "lead_key lead = []")
    case True
    then show ?thesis using snoc.IH by (simp add: deduplicate_snoc)
  next
    case False
    then have same: "lead_key lead \<notin> lead_key ` set (filter (\<lambda>lead. lead_key lead \<noteq> []) pre)
        \<longleftrightarrow> lead_key lead \<notin> lead_key ` set pre"
      by auto
    show ?thesis using False snoc.IH
      by (simp add: deduplicate_snoc first_occurrences_spec_snoc same del: set_filter)
  qed
qed

lemma collect_results_closed:
  "collect_results results enriched_leads logged
     = (enriched_leads @ filter (\<lambda>lead. 0 \<le> data_quality_score lead) (successes results),
        logged @ map EnrichmentFailed (failures results))"
proof (induction results arbitrary: enriched_leads logged)
  case Nil
  then show ?case by simp
next
  case (Cons r rs)
  then show ?case by (cases r) simp_all
qed

lemma put_screenshots_map:
  assumes "\<And>lead path. f (lead\<lparr>screenshot_path := path\<rparr>) = f lead"
  shows "map f (put_screenshots shots leads) = map f leads"
proof -
  have "map f (put_screenshots shots leads) = map (f \<circ> snd) (enumerate 0 leads)"
    unfolding put_screenshots_def map_map
    by (rule map_cong) (auto simp: assms split: option.splits)
  also have "\<dots> = map f (map snd (enumerate 0 leads))" by (simp only: map_map)
  finally show ?thesis by (simp only: map_snd_enumerate)
qed

lemma py_sort_reverse_descending:
  "sorted_wrt (\<lambda>a b. b \<le> a) (map key (py_sort_reverse key xs))"
proof -
  have "sorted (map key (sort_key key (rev xs)))" by simp
  then have "sorted_wrt (\<lambda>a b. b \<le> a) (rev (map key (sort_key key (rev xs))))"
    by (simp add: sorted_wrt_rev)
  then show ?thesis by (simp add: py_sort_reverse_def rev_map)
qed

lemma py_sort_reverse_stable:
  "filter (\<lambda>x. key x = k) (py_sort_reverse key xs) = filter (\<lambda>x. key x = k) xs"
proof -
  have "filter (\<lambda>x. key x = k) (sort_key key (rev xs)) = filter (\<lambda>x. key x = k) (rev xs)"
    by (rule sort_key_stable)
  then have "rev (filter (\<lambda>x. key x = k) (sort_key key (rev xs)))
      = rev (filter (\<lambda>x. key x = k) (rev xs))" by simp
  then show ?thesis by (simp add: py_sort_reverse_def rev_filter)
qed

lemma py_sort_reverse_set: "set (py_sort_reverse key xs) = set xs"
  by (simp add: py_sort_reverse_def)

lemma discover_website_frame:
  "company_name (discover_website env lead) = company_name lead"
  "sic_codes (discover_website env lead) = sic_codes lead"
  by (simp_all add: discover_website_def Let_def split: option.splits)

lemma apply_harvest_frame:
  "company_name (apply_harvest lead h) = company_name lead"
  "sic_codes (apply_harvest lead h) = sic_codes lead"
  by (simp_all add: apply_harvest_def Let_def split: option.splits)

lemma enrich_via_http_frame:
  assumes "enrich_via_http env lead = Inr lead'"
  shows "company_name lead' = company_name lead" and "sic_codes lead' = sic_codes lead"
  using assms
  by (auto simp: enrich_via_http_def apply_harvest_frame split: if_splits sum.splits)

lemma infer_ceo_frame:
  "company_name (infer_ceo env lead) = company_name lead"
  "sic_codes (infer_ceo env lead) = sic_codes lead"
  by (simp_all add: infer_ceo_def Let_def split: option.splits sum.splits)

lemma pain_points_for_frame:
  "company_name (pain_points_for lead) = company_name lead"
  "sic_codes (pain_points_for lead) = sic_codes lead"
  by (simp_all add: pain_points_for_def Let_def)

lemma score_and_filter_frame:
  assumes "score_and_filter self lead = Inr lead'"
  shows "company_name lead' = company_name lead" and "sic_codes lead' = sic_codes lead"
  using assms
  by (auto simp: score_and_filter_def Let_def pain_points_for_frame
      calculate_quality_score_def split: if_splits sum.splits)

lemma score_and_filter_marks:
  assumes "config_sic_codes (config self) \<noteq> []"
    and "\<not> sic_matches_target self (or_empty (sic_codes lead))"
    and "score_and_filter self lead = Inr lead'"
  shows "data_quality_score lead' = - 1"
  using assms
  by (auto simp: score_and_filter_def Let_def pain_points_for_frame split: if_splits sum.splits)

lemma enrich_lead_data_frame:
  assumes "enrich_lead_data self env lead = Inr lead'"
  shows "company_name lead' = company_name lead" and "sic_codes lead' = sic_codes lead"
proof -
  from assms obtain lead2 where
    http: "enrich_via_http env (discover_website env lead) = Inr lead2"
    and fin: "score_and_filter self (infer_ceo env lead2) = Inr lead'"
    by (auto simp: enrich_lead_data_def split: sum.splits)
  show "company_name lead' = company_name lead"
    using score_and_filter_frame(1) [OF fin] enrich_via_http_frame(1) [OF http]
    by (simp add: infer_ceo_frame discover_website_frame)
  show "sic_codes lead' = sic_codes lead"
    using score_and_filter_frame(2) [OF fin] enrich_via_http_frame(2) [OF http]
    by (simp add: infer_ceo_frame discover_website_frame)
qed

lemma enrich_lead_data_marks:
  assumes "config_sic_codes (config self) \<noteq> []"
    and "\<not> sic_matches_target self (or_empty (sic_codes lead))"
    and "enrich_lead_data self env lead = Inr lead'"
  shows "data_quality_score lead' = - 1"
proof -
  from assms(3) obtain lead2 where
    http: "enrich_via_http env (discover_website env lead) = Inr lead2"
    and fin: "score_and_filter self (infer_ceo env lead2) = Inr lead'"
    by (auto simp: enrich_lead_data_def split: sum.splits)
  have "sic_codes (infer_ceo env lead2) = sic_codes lead"
    using enrich_via_http_frame(2) [OF http]
    by (simp add: infer_ceo_frame discover_website_frame)
  with assms(2) have "\<not> sic_matches_target self (or_empty (sic_codes (infer_ceo env lead2)))"
    by simp
  from score_and_filter_marks [OF assms(1) this fin] show ?thesis .
qed

lemma successes_mem:
  "x \<in> set (successes (map task xs)) \<Longrightarrow> \<exists>u \<in> set xs. task u = Inr x"
proof (induction xs)
  case Nil
  then show ?case by simp
next
  case (Cons a xs)
  then show ?case by (cases "task a") auto
qed

lemma run_scraper_closed:
  assumes "run_scraper self env all_leads = Inr (out, logged)"
  shows "\<exists>shot. out = py_sort_reverse data_quality_score shot
           \<and> map without_screenshot shot = map without_screenshot (kept_leads self env all_leads)
           \<and> map data_quality_score shot = map data_quality_score (kept_leads self env all_leads)
           \<and> map company_name shot = map company_name (kept_leads self env all_leads)"
    and "logged = map EnrichmentFailed
           (failures (gather (enrich_lead_data self env) (deduplicate all_leads)))"
proof -
  let ?results = "gather (enrich_lead_data self env) (deduplicate all_leads)"
  let ?kept = "kept_leads self env all_leads"
  have empty: "all_leads = [] \<Longrightarrow> ?kept = [] \<and> failures ?results = []"
    by (simp add: kept_leads_def gather_def deduplicate_def)
  have shots: "map without_screenshot (put_screenshots shots ?kept) = map without_screenshot ?kept"
    "map data_quality_score (put_screenshots shots ?kept) = map data_quality_score ?kept"
    "map company_name (put_screenshots shots ?kept) = map company_name ?kept" for shots
    by (rule put_screenshots_map, simp add: without_screenshot_def)+
  show "\<exists>shot. out = py_sort_reverse data_quality_score shot
           \<and> map without_screenshot shot = map without_screenshot ?kept
           \<and> map data_quality_score shot = map data_quality_score ?kept
           \<and> map company_name shot = map company_name ?kept"
  proof (cases "all_leads = []")
    case True
    with assms have "out = []" by (simp add: run_scraper_def)
    then have "out = py_sort_reverse data_quality_score []" by (simp add: py_sort_reverse_def)
    then show ?thesis using empty [OF True] by auto
  next
    case False
    with assms obtain shot where
      cap: "capture_missing_screenshots_async self env ?kept = Inr shot"
      and out: "out = py_sort_reverse data_quality_score shot"
      by (auto simp: run_scraper_def collect_results_closed kept_leads_def Let_def
          split: sum.splits)
    from cap have "shot = ?kept \<or> (\<exists>shots. shot = put_screenshots shots ?kept)"
      by (auto simp: capture_missing_screenshots_async_def split: if_splits sum.splits)
    then show ?thesis using out shots by auto
  qed
  show "logged = map EnrichmentFailed (failures ?results)"
  proof (cases "all_leads = []")
    case True
    with assms have "logged = []" by (simp add: run_scraper_def)
    then show ?thesis using empty [OF True] by simp
  next
    case False
    with assms show ?thesis
      by (auto simp: run_scraper_def collect_results_closed Let_def split: sum.splits)
  qed
qed

lemma first_occurrences_spec_subset: "set (first_occurrences_spec leads) \<subseteq> set leads"
  by (auto simp: first_occurrences_spec_def)

lemma deduplicate_keys_nonempty: "u \<in> set (deduplicate all_leads) \<Longrightarrow> lead_key u \<noteq> []"
  using first_occurrences_spec_subset [of "filter (\<lambda>lead. lead_key lead \<noteq> []) all_leads"]
  by (auto simp: deduplicate_first_nonempty)

lemma new_scraper_no_match:
  assumes "config_sic_codes cfg \<noteq> []"
    and "set (extract_sic_codes_list sic_text) \<inter> set (config_sic_codes cfg) = {}"
  shows "\<not> sic_matches_target (new_scraper cfg) sic_text"
  using assms by (auto simp: sic_matches_target_def new_scraper_def Let_def)

text \<open>
  Claim C4, amended. Deduplication keys each record by its lower-cased, trimmed company
  name; among the records whose key is not empty, the first occurrence of each key in
  source order survives and every later record with the same key is discarded. Of the
  two records named "Acme Ltd" and "acme ltd ", only the first survives.
\<close>

theorem deduplicate_first_nonempty_key:
  "deduplicate all_leads
     = first_occurrences_spec (filter (\<lambda>lead. lead_key lead \<noteq> []) all_leads)
   \<and> deduplicate
       [new_lead ''Acme Ltd'' ''https://acme.example'' ''London'' ''Companies House'' 10,
        new_lead ''acme ltd '' ''https://acme.example/uk'' ''Leeds'' ''Clutch.co'' 20]
     = [new_lead ''Acme Ltd'' ''https://acme.example'' ''London'' ''Companies House'' 10]"
proof -
  have general: "deduplicate all_leads
      = first_occurrences_spec (filter (\<lambda>lead. lead_key lead \<noteq> []) all_leads)"
    by (rule deduplicate_first_nonempty)
  have k1: "lead_key (new_lead ''Acme Ltd'' ''https://acme.example'' ''London''
      ''Companies House'' 10) = ''acme ltd''"
    by code_simp
  have k2: "lead_key (new_lead ''acme ltd '' ''https://acme.example/uk'' ''Leeds''
      ''Clutch.co'' 20) = ''acme ltd''"
    by code_simp
  have acme: "deduplicate
       [new_lead ''Acme Ltd'' ''https://acme.example'' ''London'' ''Companies House'' 10,
        new_lead ''acme ltd '' ''https://acme.example/uk'' ''Leeds'' ''Clutch.co'' 20]
     = [new_lead ''Acme Ltd'' ''https://acme.example'' ''London'' ''Companies House'' 10]"
    by (simp add: deduplicate_def Let_def k1 k2)
  show ?thesis using general acme by (intro conjI)
qed

text \<open>
  Claim C4 as stated fails for the empty key: the only record with an empty company name
  is the first occurrence of its key, and it does not survive.
\<close>

theorem deduplicate_empty_key_counterexample:
  "deduplicate [new_lead '''' ''https://x.example'' ''London'' ''Clutch.co'' 10] = []
   \<and> first_occurrences_spec [new_lead '''' ''https://x.example'' ''London'' ''Clutch.co'' 10]
     = [new_lead '''' ''https://x.example'' ''London'' ''Clutch.co'' 10]"
proof -
  have k: "lead_key (new_lead '''' ''https://x.example'' ''London'' ''Clutch.co'' 10) = []"
    by code_simp
  show ?thesis by (simp add: deduplicate_def Let_def k first_occurrences_spec_def)
qed

text \<open>
  Claim C10. A raw record whose company name is empty or only whitespace (its key is the
  empty string) is discarded by deduplication: no record handed to enrichment and no
  record of the final output has an empty key, even when the record is the only one
  with that name.
\<close>

theorem empty_name_discarded:
  "(\<forall>u \<in> set (deduplicate all_leads). lead_key u \<noteq> [])
   \<and> (run_scraper self env all_leads = Inr (out, logged)
        \<longrightarrow> (\<forall>r \<in> set out. lead_key r \<noteq> []))
   \<and> deduplicate [new_lead ''   '' ''https://x.example'' ''London'' ''Clutch.co'' 10] = []"
proof (intro conjI impI ballI)
  fix u assume "u \<in> set (deduplicate all_leads)"
  then show "lead_key u \<noteq> []" by (rule deduplicate_keys_nonempty)
next
  fix r
  assume run: "run_scraper self env all_leads = Inr (out, logged)" and r: "r \<in> set out"
  from run_scraper_closed(1) [OF run] obtain shot where
    out: "out = py_sort_reverse data_quality_score shot"
    and names: "map company_name shot = map company_name (kept_leads self env all_leads)"
    by blast
  from r out have "r \<in> set shot" by (simp add: py_sort_reverse_set)
  then have "company_name r \<in> set (map company_name shot)" by simp
  then have "company_name r \<in> company_name ` set (kept_leads self env all_leads)"
    unfolding names by simp
  then obtain k where k: "k \<in> set (kept_leads self env all_leads)"
    and kn: "company_name r = company_name k" by auto
  from k have "k \<in> set (successes (map (enrich_lead_data self env) (deduplicate all_leads)))"
    by (simp add: kept_leads_def gather_def)
  from successes_mem [OF this] obtain u where u: "u \<in> set (deduplicate all_leads)"
    and e: "enrich_lead_data self env u = Inr k"
    by (elim bexE)
  have "company_name k = company_name u" using e by (rule enrich_lead_data_frame)
  then have "lead_key r = lead_key u" using kn by (simp add: lead_key_def)
  then show "lead_key r \<noteq> []" using deduplicate_keys_nonempty [OF u] by simp
next
  have k: "lead_key (new_lead ''   '' ''https://x.example'' ''London'' ''Clutch.co'' 10) = []"
    by code_simp
  show "deduplicate [new_lead ''   '' ''https://x.example'' ''London'' ''Clutch.co'' 10] = []"
    by (simp add: deduplicate_def Let_def k)
qed

theorem empty_name_discarded_witness:
  "deduplicate [new_lead ''   '' ''https://x.example'' ''London'' ''Clutch.co'' 10,
                new_lead ''Acme Ltd'' ''https://acme.example'' ''London'' ''Clutch.co'' 20]
     = [new_lead ''Acme Ltd'' ''https://acme.example'' ''London'' ''Clutch.co'' 20]
   \<and> lead_key (new_lead ''Acme Ltd'' ''https://acme.example'' ''London'' ''Clutch.co'' 20) \<noteq> []"
proof -
  let ?blank = "new_lead ''   '' ''https://x.example'' ''London'' ''Clutch.co'' 10"
  let ?acme = "new_lead ''Acme Ltd'' ''https://acme.example'' ''London'' ''Clutch.co'' 20"
  have kb: "lead_key ?blank = []" by code_simp
  have ka: "lead_key ?acme = ''acme ltd''" by code_simp
  have d: "deduplicate [?blank, ?acme] = [?acme]"
    by (simp add: deduplicate_def Let_def kb ka)
  have "\<forall>u \<in> set (deduplicate [?blank, ?acme]). lead_key u \<noteq> []"
    using empty_name_discarded [of "[?blank, ?acme]"] by (rule conjunct1)
  then have "lead_key ?acme \<noteq> []" unfolding d by simp
  with d show ?thesis by (intro conjI)
qed

text \<open>
  Claim C3. When a non-empty target code set is configured and the codes of a record do
  not meet it, enrichment returns the record with the quality score -1 (it is marked,
  not removed); enrichment yields one result per record it was given. In the final
  output every record has a quality score of at least 0, the scores are in descending
  order, and the records with equal scores stand in the order in which they passed the
  final filter (their screenshot paths apart).
\<close>

theorem sic_filter_marks_then_ranking_drops:
  "(config_sic_codes cfg \<noteq> []
      \<and> set (extract_sic_codes_list (or_empty (sic_codes lead))) \<inter> set (config_sic_codes cfg) = {}
      \<and> enrich_lead_data (new_scraper cfg) env lead = Inr lead'
      \<longrightarrow> data_quality_score lead' = - 1)
   \<and> length (gather (enrich_lead_data self env) unique_leads) = length unique_leads
   \<and> (run_scraper self env all_leads = Inr (out, logged)
      \<longrightarrow> (\<forall>r \<in> set out. 0 \<le> data_quality_score r)
        \<and> sorted_wrt (\<lambda>a b. b \<le> a) (map data_quality_score out)
        \<and> (\<forall>k. map without_screenshot (filter (\<lambda>r. data_quality_score r = k) out)
               = filter (\<lambda>r. data_quality_score r = k)
                   (map without_screenshot (kept_leads self env all_leads))))"
proof (intro conjI impI)
  assume a: "config_sic_codes cfg \<noteq> []
      \<and> set (extract_sic_codes_list (or_empty (sic_codes lead))) \<inter> set (config_sic_codes cfg) = {}
      \<and> enrich_lead_data (new_scraper cfg) env lead = Inr lead'"
  then have gate: "config_sic_codes (config (new_scraper cfg)) \<noteq> []"
    by (simp add: new_scraper_def)
  from a have "\<not> sic_matches_target (new_scraper cfg) (or_empty (sic_codes lead))"
    by (intro new_scraper_no_match) simp_all
  moreover from a have "enrich_lead_data (new_scraper cfg) env lead = Inr lead'" by simp
  ultimately show "data_quality_score lead' = - 1" by (rule enrich_lead_data_marks [OF gate])
next
  show "length (gather (enrich_lead_data self env) unique_leads) = length unique_leads"
    by (simp add: gather_def)
next
  assume run: "run_scraper self env all_leads = Inr (out, logged)"
  from run_scraper_closed(1) [OF run] obtain shot where
    out: "out = py_sort_reverse data_quality_score shot"
    and same: "map without_screenshot shot = map without_screenshot (kept_leads self env all_leads)"
    and scores: "map data_quality_score shot = map data_quality_score (kept_leads self env all_leads)"
    by blast
  have "\<forall>s \<in> set (map data_quality_score (kept_leads self env all_leads)). 0 \<le> s"
    by (auto simp: kept_leads_def)
  then have "\<forall>s \<in> set (map data_quality_score shot). 0 \<le> s" unfolding scores .
  then show "\<forall>r \<in> set out. 0 \<le> data_quality_score r"
    by (simp add: out py_sort_reverse_set)
  show "sorted_wrt (\<lambda>a b. b \<le> a) (map data_quality_score out)"
    unfolding out by (rule py_sort_reverse_descending)
  show "\<forall>k. map without_screenshot (filter (\<lambda>r. data_quality_score r = k) out)
               = filter (\<lambda>r. data_quality_score r = k)
                   (map without_screenshot (kept_leads self env all_leads))"
  proof
    fix k
    have key: "(\<lambda>r. data_quality_score r = k) \<circ> without_screenshot
        = (\<lambda>r. data_quality_score r = k)"
      by (rule ext) (simp add: without_screenshot_def)
    have "map without_screenshot (filter (\<lambda>r. data_quality_score r = k) out)
        = map without_screenshot (filter (\<lambda>r. data_quality_score r = k) shot)"
      unfolding out by (simp only: py_sort_reverse_stable)
    also have "\<dots> = filter (\<lambda>r. data_quality_score r = k) (map without_screenshot shot)"
      by (simp only: filter_map key)
    finally show "map without_screenshot (filter (\<lambda>r. data_quality_score r = k) out)
               = filter (\<lambda>r. data_quality_score r = k)
                   (map without_screenshot (kept_leads self env all_leads))"
      unfolding same .
  qed
qed

theorem sic_filter_marks_then_ranking_drops_witness:
  "(\<exists>marked. enrich_lead_data (new_scraper (bot_config ''london'' [''73110''])) offline
        software_house = Inr marked \<and> data_quality_score marked = - 1)
   \<and> (\<exists>out. run_scraper (new_scraper (bot_config ''london'' [''73110''])) offline
        [software_house, ad_agency] = Inr (out, [])
        \<and> map company_name out = [''Advert Ltd'']
        \<and> sorted_wrt (\<lambda>a b. b \<le> a) (map data_quality_score out))"
proof -
  let ?cfg = "bot_config ''london'' [''73110'']"
  let ?self = "new_scraper ?cfg"
  have ok: "case enrich_lead_data ?self offline software_house of
      Inl e \<Rightarrow> False | Inr marked \<Rightarrow> True"
    by code_simp
  then obtain marked where m: "enrich_lead_data ?self offline software_house = Inr marked"
    by (auto split: sum.splits)
  have gate: "config_sic_codes ?cfg \<noteq> []" by (simp add: bot_config_def)
  have miss: "set (extract_sic_codes_list (or_empty (sic_codes software_house)))
      \<inter> set (config_sic_codes ?cfg) = {}"
    by code_simp
  have "data_quality_score marked = - 1"
    using sic_filter_marks_then_ranking_drops
      [of ?cfg software_house offline marked ?self "[]" "[]" "[]" "[]"] gate miss m
    by blast
  with m have first: "\<exists>marked. enrich_lead_data ?self offline software_house = Inr marked
      \<and> data_quality_score marked = - 1"
    by blast
  have run: "case run_scraper ?self offline [software_house, ad_agency] of
      Inl e \<Rightarrow> False
    | Inr (out, logged) \<Rightarrow> map company_name out = [''Advert Ltd''] \<and> logged = []"
    by code_simp
  then obtain out where o: "run_scraper ?self offline [software_house, ad_agency] = Inr (out, [])"
    and names: "map company_name out = [''Advert Ltd'']"
    by (auto split: sum.splits prod.splits)
  have "sorted_wrt (\<lambda>a b. b \<le> a) (map data_quality_score out)"
    using sic_filter_marks_then_ranking_drops
      [of ?cfg software_house offline marked ?self "[]" "[software_house, ad_agency]" out "[]"] o
    by blast
  with o names have second: "\<exists>out. run_scraper ?self offline [software_house, ad_agency]
        = Inr (out, [])
      \<and> map company_name out = [''Advert Ltd'']
      \<and> sorted_wrt (\<lambda>a b. b \<le> a) (map data_quality_score out)"
    by (intro exI [of _ out] conjI)
  from first second show ?thesis by (rule conjI)
qed

text \<open>
  Claim C9, amended. When the enrichment of a record raises, the exception is a result
  of its own task: it is logged, one entry per failed task, the run goes on (only a
  failure of the screenshot browser ends it), every other task keeps its own result,
  and the output holds exactly the records whose enrichment returned with a score of at
  least 0. The record whose enrichment raised is left out of the output.
\<close>

theorem enrichment_failure_logged_and_dropped:
  "(run_scraper self env all_leads = Inr (out, logged)
      \<longrightarrow> logged = map EnrichmentFailed
             (failures (gather (enrich_lead_data self env) (deduplicate all_leads)))
        \<and> length out = length (kept_leads self env all_leads)
        \<and> without_screenshot ` set out
            = without_screenshot ` set (kept_leads self env all_leads))
   \<and> (run_scraper self env all_leads = Inl e
      \<longrightarrow> (\<exists>leads. capture_screenshots env leads = Inl e))
   \<and> (i < length unique_leads
      \<longrightarrow> gather (enrich_lead_data self env) unique_leads ! i
          = enrich_lead_data self env (unique_leads ! i))"
proof (intro conjI impI)
  assume run: "run_scraper self env all_leads = Inr (out, logged)"
  from run_scraper_closed(2) [OF run]
  show "logged = map EnrichmentFailed
      (failures (gather (enrich_lead_data self env) (deduplicate all_leads)))" .
  from run_scraper_closed(1) [OF run] obtain shot where
    out: "out = py_sort_reverse data_quality_score shot"
    and same: "map without_screenshot shot = map without_screenshot (kept_leads self env all_leads)"
    by blast
  from same have "length (map without_screenshot shot)
      = length (map without_screenshot (kept_leads self env all_leads))"
    by (rule arg_cong)
  then show "length out = length (kept_leads self env all_leads)"
    by (simp add: out py_sort_reverse_def)
  from same have "set (map without_screenshot shot)
      = set (map without_screenshot (kept_leads self env all_leads))"
    by (rule arg_cong)
  then show "without_screenshot ` set out
      = without_screenshot ` set (kept_leads self env all_leads)"
    by (simp add: out py_sort_reverse_set)
next
  assume "run_scraper self env all_leads = Inl e"
  then show "\<exists>leads. capture_screenshots env leads = Inl e"
    by (auto simp: run_scraper_def capture_missing_screenshots_async_def Let_def
        split: if_splits sum.splits prod.splits)
next
  assume "i < length unique_leads"
  then show "gather (enrich_lead_data self env) unique_leads ! i
      = enrich_lead_data self env (unique_leads ! i)"
    by (simp add: gather_def)
qed

theorem enrichment_failure_logged_and_dropped_witness:
  "\<exists>out logged. run_scraper (new_scraper (bot_config ''london'' [])) broken_pages
        [bad_lead, good_lead] = Inr (out, logged)
     \<and> length out = 1
     \<and> logged = [EnrichmentFailed (Exception ''re.error'')]"
proof -
  let ?self = "new_scraper (bot_config ''london'' [])"
  have "case run_scraper ?self broken_pages [bad_lead, good_lead] of
      Inl e \<Rightarrow> False | Inr (out, logged) \<Rightarrow> True"
    by code_simp
  then obtain out logged where
    run: "run_scraper ?self broken_pages [bad_lead, good_lead] = Inr (out, logged)"
    by (auto split: sum.splits)
  have fails: "failures (gather (enrich_lead_data ?self broken_pages)
      (deduplicate [bad_lead, good_lead])) = [Exception ''re.error'']"
    by code_simp
  have kept: "length (kept_leads ?self broken_pages [bad_lead, good_lead]) = 1"
    by code_simp
  have "logged = map EnrichmentFailed (failures (gather (enrich_lead_data ?self broken_pages)
        (deduplicate [bad_lead, good_lead])))
      \<and> length out = length (kept_leads ?self broken_pages [bad_lead, good_lead])"
    using enrichment_failure_logged_and_dropped
      [of ?self broken_pages "[bad_lead, good_lead]" out logged "Exception []" 0 "[]"] run
    by blast
  with run fails kept show ?thesis by simp
qed

text \<open>
  Claim C9 as stated fails: of two records, the one whose enrichment raises is logged and
  is absent from the result set; only its sibling is returned.
\<close>

theorem enrichment_failure_dropped_counterexample:
  "(case run_scraper (new_scraper (bot_config ''london'' [])) broken_pages
           [bad_lead, good_lead] of
      Inl e \<Rightarrow> False
    | Inr (out, logged) \<Rightarrow>
        map company_name out = [''Good Ltd'']
        \<and> logged = [EnrichmentFailed (Exception ''re.error'')])"
  by code_simp

section \<open>Domain rate limiter (utils.py)\<close>

text \<open>
  The limiter runs inside a cooperative event loop. The model is a step function on the
  state of that loop, driven by a schedule that the theorems quantify over:
  \<^item> \<open>clock\<close> is \<open>time.monotonic()\<close>; \<open>Tick dt\<close> lets time pass, and the code between two
    suspension points runs without the clock moving;
  \<^item> a task makes one request through the limiter, either by \<open>await limiter.wait(url)\<close>
    followed by the request (\<open>ViaWait\<close>, as \<open>polite_goto\<close> does), or by
    \<open>await limiter.acquire(url)\<close>, the request and \<open>limiter.release(url)\<close> (\<open>ViaAcquire\<close>);
  \<^item> \<open>Run i\<close> resumes task \<open>i\<close> and runs it to its next suspension point: it is \<open>Blocked\<close>
    while the lock of its domain is taken, \<open>Sleeping\<close> in \<open>asyncio.sleep\<close> with the lock
    held, \<open>FlatSleeping\<close> in the sleep of \<open>wait\<close> without a URL, \<open>InFlight\<close> once the gate
    has returned and the request runs; a task that cannot go on stays where it is;
  \<^item> \<open>asyncio.sleep(t)\<close> returns no earlier than \<open>t\<close> after the call, and a free lock may
    be taken by any task that asks for it (the loop's first-come order is one of the
    schedules);
  \<^item> \<open>trace\<close> records when each request begins (the gate returns) and when it completes.
  \<open>nl\<close> is \<open>urlparse(url).netloc\<close>. A lock is its \<open>locked\<close> flag; the dictionaries
  \<open>_last_at\<close> and \<open>_locks\<close> are maps.
\<close>

datatype gate = ViaWait | ViaAcquire

datatype stage = Calling | Blocked | Sleeping real | FlatSleeping real | InFlight | Finished

record task =
  gate :: gate
  url :: string
  stage :: stage

datatype event = Began nat gate string real | Completed nat gate string real

record DomainRateLimiter =
  min_delay :: real
  last_at :: "string \<rightharpoonup> real"
  locks :: "string \<rightharpoonup> bool"

record event_loop =
  clock :: real
  limiter :: DomainRateLimiter
  tasks :: "nat \<Rightarrow> task"
  trace :: "event list"

text \<open>\<open>_domain\<close>, and the elementary updates: the stage of a task, an event of the
  trace, \<open>self._last_at[domain] = time.monotonic()\<close>, and the flag of a domain's lock
  (creating the lock when the domain has none).\<close>

definition domain_of :: "(string \<Rightarrow> string) \<Rightarrow> string \<Rightarrow> string" where
  "domain_of nl u = (if nl u = [] then [] else nl u)"

definition set_stage :: "nat \<Rightarrow> stage \<Rightarrow> event_loop \<Rightarrow> event_loop" where
  "set_stage i s w = w\<lparr>tasks := (tasks w)(i := (tasks w i)\<lparr>stage := s\<rparr>)\<rparr>"

definition emit :: "event \<Rightarrow> event_loop \<Rightarrow> event_loop" where
  "emit e w = w\<lparr>trace := trace w @ [e]\<rparr>"

definition stamp :: "string \<Rightarrow> event_loop \<Rightarrow> event_loop" where
  "stamp d w = w\<lparr>limiter := (limiter w)\<lparr>last_at := (last_at (limiter w))(d \<mapsto> clock w)\<rparr>\<rparr>"

definition set_lock :: "string \<Rightarrow> bool \<Rightarrow> event_loop \<Rightarrow> event_loop" where
  "set_lock d b w = w\<lparr>limiter := (limiter w)\<lparr>locks := (locks (limiter w))(d \<mapsto> b)\<rparr>\<rparr>"

text \<open>
  The body of the gate. \<open>enter\<close> runs with the lock just taken: it computes the time
  still to wait and sleeps, or goes on at once. \<open>after_sleep\<close> is what follows the
  sleep: \<open>wait\<close> stamps the domain and leaves the \<open>async with\<close> block, \<open>acquire\<close> returns
  with the lock held; then the request begins. \<open>finish\<close> completes the request; after
  \<open>acquire\<close> it is followed by \<open>release\<close>, which stamps the domain and frees the lock.
\<close>

definition begin_request :: "nat \<Rightarrow> event_loop \<Rightarrow> event_loop" where
  "begin_request i w =
     emit (Began i (gate (tasks w i)) (url (tasks w i)) (clock w)) (set_stage i InFlight w)"

definition after_sleep :: "(string \<Rightarrow> string) \<Rightarrow> nat \<Rightarrow> event_loop \<Rightarrow> event_loop" where
  "after_sleep nl i w =
     (let d = domain_of nl (url (tasks w i))
      in case gate (tasks w i) of
           ViaWait \<Rightarrow> begin_request i (set_lock d False (stamp d w))
         | ViaAcquire \<Rightarrow> begin_request i w)"

definition enter :: "(string \<Rightarrow> string) \<Rightarrow> nat \<Rightarrow> event_loop \<Rightarrow> event_loop" where
  "enter nl i w =
     (let d = domain_of nl (url (tasks w i));
          now = clock w;
          last = (case last_at (limiter w) d of None \<Rightarrow> 0 | Some l \<Rightarrow> l);
          time_to_wait = max 0 (min_delay (limiter w) - (now - last));
          w1 = set_lock d True w
      in if 0 < time_to_wait then set_stage i (Sleeping (now + time_to_wait)) w1
         else after_sleep nl i w1)"

definition try_lock :: "(string \<Rightarrow> string) \<Rightarrow> nat \<Rightarrow> event_loop \<Rightarrow> event_loop" where
  "try_lock nl i w =
     (if locks (limiter w) (domain_of nl (url (tasks w i))) = Some True
      then set_stage i Blocked w else enter nl i w)"

definition finish :: "(string \<Rightarrow> string) \<Rightarrow> nat \<Rightarrow> event_loop \<Rightarrow> event_loop" where
  "finish nl i w =
     (let d = domain_of nl (url (tasks w i));
          w1 = emit (Completed i (gate (tasks w i)) (url (tasks w i)) (clock w))
                 (set_stage i Finished w)
      in case gate (tasks w i) of
           ViaWait \<Rightarrow> w1
         | ViaAcquire \<Rightarrow>
             (let w2 = stamp d w1
              in if locks (limiter w2) d \<noteq> None then set_lock d False w2 else w2))"

definition run_task :: "(string \<Rightarrow> string) \<Rightarrow> nat \<Rightarrow> event_loop \<Rightarrow> event_loop" where
  "run_task nl i w =
     (case stage (tasks w i) of
           Calling \<Rightarrow>
             if gate (tasks w i) = ViaWait \<and> url (tasks w i) = []
             then set_stage i (FlatSleeping (clock w + min_delay (limiter w))) w
             else try_lock nl i w
         | Blocked \<Rightarrow> try_lock nl i w
         | Sleeping until \<Rightarrow> if until \<le> clock w then after_sleep nl i w else w
         | FlatSleeping until \<Rightarrow> if until \<le> clock w then begin_request i w else w
         | InFlight \<Rightarrow> finish nl i w
         | Finished \<Rightarrow> w)"

datatype action = Tick real | Run nat

fun step :: "(string \<Rightarrow> string) \<Rightarrow> event_loop \<Rightarrow> action \<Rightarrow> event_loop" where
  "step nl w (Tick dt) = w\<lparr>clock := clock w + max 0 dt\<rparr>"
| "step nl w (Run i) = run_task nl i w"

definition run :: "(string \<Rightarrow> string) \<Rightarrow> event_loop \<Rightarrow> action list \<Rightarrow> event_loop" where
  "run nl w schedule = foldl (step nl) w schedule"

definition start_loop :: "real \<Rightarrow> real \<Rightarrow> (gate \<times> string) list \<Rightarrow> event_loop" where
  "start_loop min_delay_s t0 requests =
     \<lparr>clock = t0,
      limiter = \<lparr>min_delay = min_delay_s, last_at = Map.empty, locks = Map.empty\<rparr>,
      tasks = (\<lambda>i. if i < length requests
                    then \<lparr>gate = fst (requests ! i), url = snd (requests ! i), stage = Calling\<rparr>
                    else \<lparr>gate = ViaWait, url = [], stage = Finished\<rparr>),
      trace = []\<rparr>"

text \<open>
  What the trace shows for a domain. A request is gated unless it went through \<open>wait\<close>
  with an empty URL (the flat delay). \<open>began_time\<close> is the time at which a gated request
  to the domain begins; \<open>stamp_time\<close> is the time of an event that the limiter counts
  from: the beginning of a gated request, or the completion of a request gated by
  \<open>acquire\<close> and \<open>release\<close>. A task holds the lock of a domain while it sleeps in the gate,
  and, after \<open>acquire\<close>, while its request is in flight.
\<close>

definition gated :: "gate \<Rightarrow> string \<Rightarrow> bool" where
  "gated g u = (g = ViaAcquire \<or> u \<noteq> [])"

fun began_time :: "(string \<Rightarrow> string) \<Rightarrow> string \<Rightarrow> event \<Rightarrow> real option" where
  "began_time nl d (Began i g u t) = (if gated g u \<and> domain_of nl u = d then Some t else None)"
| "began_time nl d (Completed i g u t) = None"

fun stamp_time :: "(string \<Rightarrow> string) \<Rightarrow> string \<Rightarrow> event \<Rightarrow> real option" where
  "stamp_time nl d (Began i g u t) = (if gated g u \<and> domain_of nl u = d then Some t else None)"
| "stamp_time nl d (Completed i g u t) =
     (if g = ViaAcquire \<and> domain_of nl u = d then Some t else None)"

definition holds_lock :: "(string \<Rightarrow> string) \<Rightarrow> string \<Rightarrow> task \<Rightarrow> bool" where
  "holds_lock nl d t =
     (domain_of nl (url t) = d
      \<and> (case stage t of Sleeping until \<Rightarrow> True | InFlight \<Rightarrow> gate t = ViaAcquire | _ \<Rightarrow> False))"

fun event_time :: "event \<Rightarrow> real" where
  "event_time (Began i g u t) = t"
| "event_time (Completed i g u t) = t"

definition stamps :: "(string \<Rightarrow> string) \<Rightarrow> string \<Rightarrow> event list \<Rightarrow> real set" where
  "stamps nl d tr = {s. \<exists>e \<in> set tr. stamp_time nl d e = Some s}"

definition spaced :: "(string \<Rightarrow> string) \<Rightarrow> real \<Rightarrow> string \<Rightarrow> event list \<Rightarrow> bool" where
  "spaced nl md d tr =
     (\<forall>i j s t. i < j \<and> j < length tr \<and> stamp_time nl d (tr ! i) = Some s
        \<and> began_time nl d (tr ! j) = Some t \<longrightarrow> s + md \<le> t)"

text \<open>
  The invariant of the loop: events lie in the past; a lock has at most one holder, and
  is locked while it has one; when a domain's lock has no holder, \<open>_last_at\<close> is at
  least every stamp of the domain; a task asleep in the gate wakes no earlier than
  \<open>min_delay\<close> after every stamp of its domain; the flat sleep is only for ungated
  requests; and the trace is spaced.
\<close>

definition limiter_inv :: "(string \<Rightarrow> string) \<Rightarrow> real \<Rightarrow> event_loop \<Rightarrow> bool" where
  "limiter_inv nl md w =
     (min_delay (limiter w) = md
      \<and> (\<forall>e \<in> set (trace w). event_time e \<le> clock w)
      \<and> (\<forall>d i j. holds_lock nl d (tasks w i) \<and> holds_lock nl d (tasks w j) \<longrightarrow> i = j)
      \<and> (\<forall>d i. holds_lock nl d (tasks w i) \<longrightarrow> locks (limiter w) d = Some True)
      \<and> (\<forall>d. (\<forall>i. \<not> holds_lock nl d (tasks w i))
             \<longrightarrow> (\<forall>s \<in> stamps nl d (trace w). \<exists>l. last_at (limiter w) d = Some l \<and> s \<le> l))
      \<and> (\<forall>i until. stage (tasks w i) = Sleeping until
             \<longrightarrow> (\<forall>s \<in> stamps nl (domain_of nl (url (tasks w i))) (trace w). s + md \<le> until))
      \<and> (\<forall>i until. stage (tasks w i) = FlatSleeping until
             \<longrightarrow> \<not> gated (gate (tasks w i)) (url (tasks w i)))
      \<and> (\<forall>d. spaced nl md d (trace w)))"

text \<open>A concrete loop: two tasks call \<open>wait\<close> for two pages of one host.\<close>

definition one_host :: "string \<Rightarrow> string" where
  "one_host u = ''a.example''"

definition two_waits :: "(gate \<times> string) list" where
  "two_waits = [(ViaWait, ''https://a.example/1''), (ViaWait, ''https://a.example/2'')]"

lemma stamps_snoc:
  "stamps nl d (tr @ [e]) = stamps nl d tr \<union> (case stamp_time nl d e of None \<Rightarrow> {} | Some s \<Rightarrow> {s})"
  by (auto simp: stamps_def split: option.splits)

lemma spaced_snoc:
  "spaced nl md d (tr @ [e]) \<longleftrightarrow>
     spaced nl md d tr
     \<and> (\<forall>t. began_time nl d e = Some t \<longrightarrow> (\<forall>s \<in> stamps nl d tr. s + md \<le> t))"
proof
  assume sp: "spaced nl md d (tr @ [e])"
  have "spaced nl md d tr"
    unfolding spaced_def
  proof (intro allI impI)
    fix i j s t
    assume a: "i < j \<and> j < length tr \<and> stamp_time nl d (tr ! i) = Some s
        \<and> began_time nl d (tr ! j) = Some t"
    then have "stamp_time nl d ((tr @ [e]) ! i) = Some s" "began_time nl d ((tr @ [e]) ! j) = Some t"
      by (simp_all add: nth_append)
    with a sp show "s + md \<le> t" unfolding spaced_def
      by (metis length_append_singleton less_Suc_eq)
  qed
  moreover have "\<forall>t. began_time nl d e = Some t \<longrightarrow> (\<forall>s \<in> stamps nl d tr. s + md \<le> t)"
  proof (intro allI impI ballI)
    fix t s
    assume b: "began_time nl d e = Some t" and s: "s \<in> stamps nl d tr"
    from s obtain i where i: "i < length tr" "stamp_time nl d (tr ! i) = Some s"
      by (auto simp: stamps_def in_set_conv_nth)
    then have "stamp_time nl d ((tr @ [e]) ! i) = Some s"
      "began_time nl d ((tr @ [e]) ! length tr) = Some t"
      using b by (simp_all add: nth_append)
    with i sp show "s + md \<le> t" unfolding spaced_def
      by (metis length_append_singleton lessI)
  qed
  ultimately show "spaced nl md d tr
     \<and> (\<forall>t. began_time nl d e = Some t \<longrightarrow> (\<forall>s \<in> stamps nl d tr. s + md \<le> t))" ..
next
  assume r: "spaced nl md d tr
     \<and> (\<forall>t. began_time nl d e = Some t \<longrightarrow> (\<forall>s \<in> stamps nl d tr. s + md \<le> t))"
  show "spaced nl md d (tr @ [e])"
    unfolding spaced_def
  proof (intro allI impI)
    fix i j s t
    assume a: "i < j \<and> j < length (tr @ [e]) \<and> stamp_time nl d ((tr @ [e]) ! i) = Some s
        \<and> began_time nl d ((tr @ [e]) ! j) = Some t"
    show "s + md \<le> t"
    proof (cases "j < length tr")
      case True
      with a have "i < length tr" by simp
      with a True have "stamp_time nl d (tr ! i) = Some s" "began_time nl d (tr ! j) = Some t"
        by (simp_all add: nth_append)
      with a True r show ?thesis unfolding spaced_def by blast
    next
      case False
      with a have j: "j = length tr" by simp
      with a have b: "began_time nl d e = Some t" by simp
      from a j have il: "i < length tr" by simp
      with a have "stamp_time nl d (tr ! i) = Some s" "i < length tr"
        by (simp_all add: nth_append)
      then have "s \<in> stamps nl d tr"
        unfolding stamps_def using nth_mem [of i tr] by blast
      with b r show ?thesis by blast
    qed
  qed
qed

lemma set_stage_fields:
  "clock (set_stage i s w) = clock w" "limiter (set_stage i s w) = limiter w"
  "trace (set_stage i s w) = trace w"
  "tasks (set_stage i s w) = (tasks w)(i := (tasks w i)\<lparr>stage := s\<rparr>)"
  by (simp_all add: set_stage_def)

lemma emit_fields:
  "clock (emit e w) = clock w" "limiter (emit e w) = limiter w"
  "trace (emit e w) = trace w @ [e]" "tasks (emit e w) = tasks w"
  by (simp_all add: emit_def)

lemma stamp_fields:
  "clock (stamp d w) = clock w" "trace (stamp d w) = trace w" "tasks (stamp d w) = tasks w"
  "min_delay (limiter (stamp d w)) = min_delay (limiter w)"
  "locks (limiter (stamp d w)) = locks (limiter w)"
  "last_at (limiter (stamp d w)) = (last_at (limiter w))(d \<mapsto> clock w)"
  by (simp_all add: stamp_def)

lemma set_lock_fields:
  "clock (set_lock d b w) = clock w" "trace (set_lock d b w) = trace w"
  "tasks (set_lock d b w) = tasks w"
  "min_delay (limiter (set_lock d b w)) = min_delay (limiter w)"
  "last_at (limiter (set_lock d b w)) = last_at (limiter w)"
  "locks (limiter (set_lock d b w)) = (locks (limiter w))(d \<mapsto> b)"
  by (simp_all add: set_lock_def)

lemmas loop_fields = set_stage_fields emit_fields stamp_fields set_lock_fields

lemma holds_lock_stage:
  "holds_lock nl d (t\<lparr>stage := s\<rparr>)
     = (domain_of nl (url t) = d
        \<and> (case s of Sleeping until \<Rightarrow> True | InFlight \<Rightarrow> gate t = ViaAcquire | _ \<Rightarrow> False))"
  by (cases s) (simp_all add: holds_lock_def)

lemma inv_tick:
  assumes "limiter_inv nl md w"
  shows "limiter_inv nl md (w\<lparr>clock := clock w + max 0 dt\<rparr>)"
  using assms unfolding limiter_inv_def by (auto intro: order_trans)

lemma inv_idle:
  assumes "limiter_inv nl md w"
    and "stage (tasks w i) = Calling \<or> stage (tasks w i) = Blocked"
    and "s = Blocked \<or> (s = FlatSleeping until \<and> \<not> gated (gate (tasks w i)) (url (tasks w i)))"
  shows "limiter_inv nl md (set_stage i s w)"
proof -
  have h: "holds_lock nl d (tasks (set_stage i s w) j) = holds_lock nl d (tasks w j)" for d j
    using assms(2,3) by (auto simp: set_stage_fields holds_lock_def)
  show ?thesis
    using assms unfolding limiter_inv_def h
    by (auto simp: set_stage_fields)
qed

lemma inv_set_lock_True:
  assumes "limiter_inv nl md w"
  shows "limiter_inv nl md (set_lock d True w)"
  using assms unfolding limiter_inv_def by (auto simp: set_lock_fields)

lemma no_holder_if_unlocked:
  assumes "limiter_inv nl md w" and "locks (limiter w) d \<noteq> Some True"
  shows "\<not> holds_lock nl d (tasks w j)"
  using assms unfolding limiter_inv_def by blast

lemma inv_sleep:
  assumes i: "limiter_inv nl md w"
    and st: "stage (tasks w i) = Calling \<or> stage (tasks w i) = Blocked"
    and d: "d = domain_of nl (url (tasks w i))"
    and free: "locks (limiter w) d \<noteq> Some True"
    and u: "until = clock w + max 0 (md - (clock w
               - (case last_at (limiter w) d of None \<Rightarrow> 0 | Some l \<Rightarrow> l)))"
  shows "limiter_inv nl md (set_stage i (Sleeping until) (set_lock d True w))"
proof -
  have nh: "\<not> holds_lock nl d (tasks w j)" for j
    using i free by (rule no_holder_if_unlocked)
  have wait: "s + md \<le> until" if "s \<in> stamps nl d (trace w)" for s
  proof -
    from i nh that obtain l where "last_at (limiter w) d = Some l" "s \<le> l"
      unfolding limiter_inv_def by blast
    then show ?thesis unfolding u by simp
  qed
  have idle: "\<not> holds_lock nl e (tasks w i)" for e
    using st by (auto simp: holds_lock_def)
  have hl: "holds_lock nl e (tasks (set_stage i (Sleeping until) (set_lock d True w)) j)
      = (if j = i then e = d else holds_lock nl e (tasks w j))" for e j
    using d by (auto simp: loop_fields holds_lock_stage)
  show ?thesis
    unfolding limiter_inv_def hl
    apply (intro conjI)
    subgoal using i unfolding limiter_inv_def by (simp add: loop_fields)
    subgoal using i unfolding limiter_inv_def by (simp add: loop_fields)
    subgoal using i nh unfolding limiter_inv_def by (auto split: if_splits)
    subgoal using i unfolding limiter_inv_def by (auto simp: loop_fields split: if_splits)
    subgoal using i idle unfolding limiter_inv_def by (simp add: loop_fields) metis
    subgoal using i wait d unfolding limiter_inv_def by (auto simp: loop_fields split: if_splits)
    subgoal using i st unfolding limiter_inv_def by (auto simp: loop_fields split: if_splits)
    subgoal using i unfolding limiter_inv_def by (simp add: loop_fields)
    done
qed

lemma stamp_time_event_time: "stamp_time nl d e = Some s \<Longrightarrow> event_time e = s"
  by (cases e) (auto split: if_splits)

lemma begin_request_fields:
  "clock (begin_request i w) = clock w" "limiter (begin_request i w) = limiter w"
  "tasks (begin_request i w) = (tasks w)(i := (tasks w i)\<lparr>stage := InFlight\<rparr>)"
  "trace (begin_request i w)
     = trace w @ [Began i (gate (tasks w i)) (url (tasks w i)) (clock w)]"
  by (simp_all add: begin_request_def loop_fields)

lemma inv_after_sleep:
  assumes i: "limiter_inv nl md w"
    and st: "stage (tasks w i) = Calling \<or> stage (tasks w i) = Blocked
             \<or> (\<exists>until. stage (tasks w i) = Sleeping until)"
    and d: "d = domain_of nl (url (tasks w i))"
    and only: "\<forall>j. j \<noteq> i \<longrightarrow> \<not> holds_lock nl d (tasks w j)"
    and ready: "\<forall>s \<in> stamps nl d (trace w). s + md \<le> clock w"
    and locked: "locks (limiter w) d = Some True"
  shows "limiter_inv nl md (after_sleep nl i w)"
proof (cases "gate (tasks w i)")
  case ViaWait
  let ?w = "begin_request i (set_lock d False (stamp d w))"
  have eq: "after_sleep nl i w = ?w"
    using ViaWait d by (simp add: after_sleep_def Let_def)
  have other: "\<not> holds_lock nl e (tasks w i)" if "e \<noteq> d" for e
    using that d by (auto simp: holds_lock_def)
  have hl: "holds_lock nl e (tasks ?w j) = (j \<noteq> i \<and> holds_lock nl e (tasks w j))" for e j
    using ViaWait by (auto simp: begin_request_fields loop_fields holds_lock_stage)
  have sleeper: "\<forall>j until. stage (tasks w j) = Sleeping until \<and> j \<noteq> i
      \<longrightarrow> domain_of nl (url (tasks w j)) \<noteq> domain_of nl (url (tasks w i))"
    using only d by (auto simp: holds_lock_def)
  have past: "s \<le> clock w" if "s \<in> stamps nl e (trace w)" for s e
  proof -
    from that obtain ev where ev: "ev \<in> set (trace w)" "stamp_time nl e ev = Some s"
      by (auto simp: stamps_def)
    from ev(2) have "event_time ev = s" by (rule stamp_time_event_time)
    with ev(1) show ?thesis using i unfolding limiter_inv_def by blast
  qed
  have E_other: "\<exists>l. last_at (limiter w) e = Some l \<and> s \<le> l"
    if "e \<noteq> d" "\<forall>j. j = i \<or> \<not> holds_lock nl e (tasks w j)"
      "s \<in> stamps nl e (trace w)" for e s
  proof -
    from that(1) have "\<not> holds_lock nl e (tasks w i)" by (rule other)
    with that(2) have "\<forall>j. \<not> holds_lock nl e (tasks w j)" by metis
    with i that(3) show ?thesis unfolding limiter_inv_def by blast
  qed
  show ?thesis
    unfolding eq limiter_inv_def hl
    apply (intro conjI)
    subgoal using i unfolding limiter_inv_def by (simp add: begin_request_fields loop_fields)
    subgoal using i unfolding limiter_inv_def by (auto simp: begin_request_fields loop_fields)
    subgoal using i unfolding limiter_inv_def by blast
    subgoal using i only unfolding limiter_inv_def
      by (auto simp: begin_request_fields loop_fields)
    subgoal using only past d E_other
      by (auto simp: begin_request_fields loop_fields stamps_snoc split: option.splits if_splits)
    subgoal using i sleeper d unfolding limiter_inv_def
      by (auto simp: begin_request_fields loop_fields stamps_snoc split: option.splits if_splits)
    subgoal using i st unfolding limiter_inv_def by (auto simp: begin_request_fields loop_fields)
    subgoal using i ready d unfolding limiter_inv_def
      by (auto simp: begin_request_fields loop_fields spaced_snoc split: if_splits)
    done
next
  case ViaAcquire
  let ?w = "begin_request i w"
  have eq: "after_sleep nl i w = ?w"
    using ViaAcquire by (simp add: after_sleep_def Let_def)
  have other: "\<not> holds_lock nl e (tasks w i)" if "e \<noteq> d" for e
    using that d by (auto simp: holds_lock_def)
  have hl: "holds_lock nl e (tasks ?w j)
      = (if j = i then e = d else holds_lock nl e (tasks w j))" for e j
    using ViaAcquire d by (auto simp: begin_request_fields holds_lock_stage)
  have sleeper: "\<forall>j until. stage (tasks w j) = Sleeping until \<and> j \<noteq> i
      \<longrightarrow> domain_of nl (url (tasks w j)) \<noteq> domain_of nl (url (tasks w i))"
    using only d by (auto simp: holds_lock_def)
  have E_other: "\<exists>l. last_at (limiter w) e = Some l \<and> s \<le> l"
    if "e \<noteq> d" "\<forall>j. j = i \<or> \<not> holds_lock nl e (tasks w j)"
      "s \<in> stamps nl e (trace w)" for e s
  proof -
    from that(1) have "\<not> holds_lock nl e (tasks w i)" by (rule other)
    with that(2) have "\<forall>j. \<not> holds_lock nl e (tasks w j)" by metis
    with i that(3) show ?thesis unfolding limiter_inv_def by blast
  qed
  show ?thesis
    unfolding eq limiter_inv_def hl
    apply (intro conjI)
    subgoal using i unfolding limiter_inv_def by (simp add: begin_request_fields)
    subgoal using i unfolding limiter_inv_def by (auto simp: begin_request_fields)
    subgoal using i only unfolding limiter_inv_def by (auto split: if_splits)
    subgoal using i locked unfolding limiter_inv_def
      by (auto simp: begin_request_fields split: if_splits)
    subgoal using d E_other
      by (auto simp: begin_request_fields stamps_snoc split: option.splits if_splits)
    subgoal using i sleeper d unfolding limiter_inv_def
      by (auto simp: begin_request_fields stamps_snoc split: option.splits if_splits)
    subgoal using i st unfolding limiter_inv_def by (auto simp: begin_request_fields)
    subgoal using i ready d unfolding limiter_inv_def
      by (auto simp: begin_request_fields spaced_snoc split: if_splits)
    done
qed

lemma inv_begin_flat:
  assumes i: "limiter_inv nl md w" and st: "stage (tasks w i) = FlatSleeping until"
  shows "limiter_inv nl md (begin_request i w)"
proof -
  let ?w = "begin_request i w"
  have ng: "\<not> gated (gate (tasks w i)) (url (tasks w i))"
    using i st unfolding limiter_inv_def by blast
  then have wait: "gate (tasks w i) = ViaWait" by (cases "gate (tasks w i)") (auto simp: gated_def)
  have hl: "holds_lock nl e (tasks ?w j) = holds_lock nl e (tasks w j)" for e j
    using st wait by (auto simp: begin_request_fields holds_lock_stage holds_lock_def)
  show ?thesis
    unfolding limiter_inv_def hl
    apply (intro conjI)
    subgoal using i unfolding limiter_inv_def by (simp add: begin_request_fields)
    subgoal using i unfolding limiter_inv_def by (auto simp: begin_request_fields)
    subgoal using i unfolding limiter_inv_def by blast
    subgoal using i unfolding limiter_inv_def by (auto simp: begin_request_fields)
    subgoal using i ng unfolding limiter_inv_def
      by (auto simp: begin_request_fields stamps_snoc split: option.splits if_splits)
    subgoal using i ng st unfolding limiter_inv_def
      by (auto simp: begin_request_fields stamps_snoc split: option.splits if_splits)
    subgoal using i st unfolding limiter_inv_def by (auto simp: begin_request_fields)
    subgoal using i ng unfolding limiter_inv_def
      by (auto simp: begin_request_fields spaced_snoc split: if_splits)
    done
qed

lemma stamps_past:
  assumes "limiter_inv nl md w" and "s \<in> stamps nl e (trace w)"
  shows "s \<le> clock w"
proof -
  from assms(2) obtain ev where ev: "ev \<in> set (trace w)" "stamp_time nl e ev = Some s"
    by (auto simp: stamps_def)
  from ev(2) have "event_time ev = s" by (rule stamp_time_event_time)
  with ev(1) show ?thesis using assms(1) unfolding limiter_inv_def by blast
qed

lemma inv_finish:
  assumes i: "limiter_inv nl md w" and st: "stage (tasks w i) = InFlight"
  shows "limiter_inv nl md (finish nl i w)"
proof (cases "gate (tasks w i)")
  case ViaWait
  let ?w = "emit (Completed i ViaWait (url (tasks w i)) (clock w)) (set_stage i Finished w)"
  have eq: "finish nl i w = ?w"
    using ViaWait by (simp add: finish_def Let_def loop_fields)
  have hl: "holds_lock nl e (tasks ?w j) = holds_lock nl e (tasks w j)" for e j
    using st ViaWait by (auto simp: loop_fields holds_lock_stage holds_lock_def)
  show ?thesis
    unfolding eq limiter_inv_def hl
    apply (intro conjI)
    subgoal using i unfolding limiter_inv_def by (simp add: loop_fields)
    subgoal using i unfolding limiter_inv_def by (auto simp: loop_fields)
    subgoal using i unfolding limiter_inv_def by blast
    subgoal using i unfolding limiter_inv_def by (auto simp: loop_fields)
    subgoal using i unfolding limiter_inv_def
      by (auto simp: loop_fields stamps_snoc split: option.splits if_splits)
    subgoal using i st unfolding limiter_inv_def
      by (auto simp: loop_fields stamps_snoc split: option.splits if_splits)
    subgoal using i st unfolding limiter_inv_def by (auto simp: loop_fields)
    subgoal using i unfolding limiter_inv_def by (auto simp: loop_fields spaced_snoc)
    done
next
  case ViaAcquire
  define d where "d = domain_of nl (url (tasks w i))"
  let ?w = "set_lock d False (stamp d
      (emit (Completed i ViaAcquire (url (tasks w i)) (clock w)) (set_stage i Finished w)))"
  have mine: "holds_lock nl d (tasks w i)"
    using st ViaAcquire by (simp add: holds_lock_def d_def)
  then have locked: "locks (limiter w) d = Some True"
    using i unfolding limiter_inv_def by blast
  from locked have exists: "locks (limiter w) (domain_of nl (url (tasks w i))) \<noteq> None"
    by (simp add: d_def)
  have eq: "finish nl i w = ?w"
    using ViaAcquire exists by (simp add: finish_def Let_def loop_fields d_def del: not_None_eq)
  have only: "\<forall>j. j \<noteq> i \<longrightarrow> \<not> holds_lock nl d (tasks w j)"
    using i mine unfolding limiter_inv_def by blast
  have other: "\<not> holds_lock nl e (tasks w i)" if "e \<noteq> d" for e
    using that by (auto simp: holds_lock_def d_def)
  have hl: "holds_lock nl e (tasks ?w j) = (j \<noteq> i \<and> holds_lock nl e (tasks w j))" for e j
    by (auto simp: loop_fields holds_lock_stage)
  have sleeper: "\<forall>j until. stage (tasks w j) = Sleeping until \<and> j \<noteq> i
      \<longrightarrow> domain_of nl (url (tasks w j)) \<noteq> domain_of nl (url (tasks w i))"
    using only by (auto simp: holds_lock_def d_def)
  have past: "\<forall>e. \<forall>s \<in> stamps nl e (trace w). s \<le> clock w"
    using i by (blast intro: stamps_past)
  have E_other: "\<exists>l. last_at (limiter w) e = Some l \<and> s \<le> l"
    if "e \<noteq> d" "\<forall>j. j = i \<or> \<not> holds_lock nl e (tasks w j)"
      "s \<in> stamps nl e (trace w)" for e s
  proof -
    from that(1) have "\<not> holds_lock nl e (tasks w i)" by (rule other)
    with that(2) have "\<forall>j. \<not> holds_lock nl e (tasks w j)" by metis
    with i that(3) show ?thesis unfolding limiter_inv_def by blast
  qed
  show ?thesis
    unfolding eq limiter_inv_def hl
    apply (intro conjI)
    subgoal using i unfolding limiter_inv_def by (simp add: loop_fields)
    subgoal using i unfolding limiter_inv_def by (auto simp: loop_fields)
    subgoal using i unfolding limiter_inv_def by blast
    subgoal using i only unfolding limiter_inv_def by (auto simp: loop_fields)
    subgoal using past E_other
      by (auto simp: loop_fields stamps_snoc d_def split: option.splits if_splits)
    subgoal using i sleeper st unfolding limiter_inv_def
      by (auto simp: loop_fields stamps_snoc d_def split: option.splits if_splits)
    subgoal using i st unfolding limiter_inv_def by (auto simp: loop_fields)
    subgoal using i unfolding limiter_inv_def by (auto simp: loop_fields spaced_snoc)
    done
qed

lemma inv_try_lock:
  assumes i: "limiter_inv nl md w"
    and st: "stage (tasks w i) = Calling \<or> stage (tasks w i) = Blocked"
  shows "limiter_inv nl md (try_lock nl i w)"
proof (cases "locks (limiter w) (domain_of nl (url (tasks w i))) = Some True")
  case True
  then have "try_lock nl i w = set_stage i Blocked w" by (simp add: try_lock_def)
  then show ?thesis using inv_idle [OF i st, of Blocked] by simp
next
  case False
  define d where "d = domain_of nl (url (tasks w i))"
  define last where "last = (case last_at (limiter w) d of None \<Rightarrow> 0 | Some l \<Rightarrow> l)"
  define ttw where "ttw = max 0 (md - (clock w - last))"
  have md: "min_delay (limiter w) = md" using i unfolding limiter_inv_def by blast
  from False have free: "locks (limiter w) d \<noteq> Some True" by (simp add: d_def)
  have nh: "\<not> holds_lock nl d (tasks w j)" for j
    using i free by (rule no_holder_if_unlocked)
  show ?thesis
  proof (cases "0 < ttw")
    case True
    then have "try_lock nl i w = set_stage i (Sleeping (clock w + ttw)) (set_lock d True w)"
      using False
      by (simp add: try_lock_def enter_def Let_def d_def ttw_def last_def md loop_fields)
    moreover have "limiter_inv nl md (set_stage i (Sleeping (clock w + ttw)) (set_lock d True w))"
      using i st d_def free by (rule inv_sleep) (simp add: ttw_def last_def)
    ultimately show ?thesis by simp
  next
    case wait0: False
    then have eq: "try_lock nl i w = after_sleep nl i (set_lock d True w)"
      using False
      by (simp add: try_lock_def enter_def Let_def d_def ttw_def last_def md loop_fields)
    have ready: "\<forall>s \<in> stamps nl d (trace (set_lock d True w)). s + md \<le> clock (set_lock d True w)"
    proof
      fix s assume "s \<in> stamps nl d (trace (set_lock d True w))"
      then have "s \<in> stamps nl d (trace w)" by (simp add: loop_fields)
      with i nh obtain l where l: "last_at (limiter w) d = Some l" "s \<le> l"
        unfolding limiter_inv_def by blast
      with wait0 show "s + md \<le> clock (set_lock d True w)"
        by (simp add: ttw_def last_def loop_fields)
    qed
    have "limiter_inv nl md (after_sleep nl i (set_lock d True w))"
    proof (rule inv_after_sleep [where d = d])
      show "limiter_inv nl md (set_lock d True w)" using i by (rule inv_set_lock_True)
      show "stage (tasks (set_lock d True w) i) = Calling
          \<or> stage (tasks (set_lock d True w) i) = Blocked
          \<or> (\<exists>until. stage (tasks (set_lock d True w) i) = Sleeping until)"
        using st by (auto simp: loop_fields)
      show "d = domain_of nl (url (tasks (set_lock d True w) i))"
        by (simp add: d_def loop_fields)
      show "\<forall>j. j \<noteq> i \<longrightarrow> \<not> holds_lock nl d (tasks (set_lock d True w) j)"
        using nh by (simp add: loop_fields)
      show "\<forall>s \<in> stamps nl d (trace (set_lock d True w)). s + md \<le> clock (set_lock d True w)"
        by (rule ready)
      show "locks (limiter (set_lock d True w)) d = Some True" by (simp add: loop_fields)
    qed
    then show ?thesis by (simp add: eq)
  qed
qed

lemma inv_run_task:
  assumes i: "limiter_inv nl md w"
  shows "limiter_inv nl md (run_task nl i w)"
proof (cases "stage (tasks w i)")
  case Calling
  show ?thesis
  proof (cases "gate (tasks w i) = ViaWait \<and> url (tasks w i) = []")
    case True
    then have "\<not> gated (gate (tasks w i)) (url (tasks w i))" by (simp add: gated_def)
    with Calling have "limiter_inv nl md (set_stage i (FlatSleeping (clock w + min_delay (limiter w))) w)"
      by (intro inv_idle [OF i]) auto
    then show ?thesis using Calling True by (simp add: run_task_def)
  next
    case False
    then show ?thesis using Calling inv_try_lock [OF i, of i] by (auto simp: run_task_def)
  qed
next
  case Blocked
  then show ?thesis using inv_try_lock [OF i, of i] by (simp add: run_task_def)
next
  case (Sleeping until)
  show ?thesis
  proof (cases "until \<le> clock w")
    case True
    define d where "d = domain_of nl (url (tasks w i))"
    have mine: "holds_lock nl d (tasks w i)" using Sleeping by (simp add: holds_lock_def d_def)
    have "limiter_inv nl md (after_sleep nl i w)"
    proof (rule inv_after_sleep [where d = d])
      show "limiter_inv nl md w" by (rule i)
      show "stage (tasks w i) = Calling \<or> stage (tasks w i) = Blocked
          \<or> (\<exists>until. stage (tasks w i) = Sleeping until)"
        using Sleeping by simp
      show "d = domain_of nl (url (tasks w i))" by (rule d_def)
      show "\<forall>j. j \<noteq> i \<longrightarrow> \<not> holds_lock nl d (tasks w j)"
        using i mine unfolding limiter_inv_def by blast
      show "\<forall>s \<in> stamps nl d (trace w). s + md \<le> clock w"
      proof
        fix s assume "s \<in> stamps nl d (trace w)"
        with i Sleeping have "s + md \<le> until" unfolding limiter_inv_def d_def by blast
        with True show "s + md \<le> clock w" by simp
      qed
      show "locks (limiter w) d = Some True" using i mine unfolding limiter_inv_def by blast
    qed
    then show ?thesis using Sleeping True by (simp add: run_task_def)
  next
    case False
    then show ?thesis using Sleeping i by (simp add: run_task_def)
  qed
next
  case (FlatSleeping until)
  then show ?thesis using i inv_begin_flat [OF i FlatSleeping] by (simp add: run_task_def)
next
  case InFlight
  then show ?thesis using inv_finish [OF i InFlight] by (simp add: run_task_def)
next
  case Finished
  then show ?thesis using i by (simp add: run_task_def)
qed

lemma inv_step: "limiter_inv nl md w \<Longrightarrow> limiter_inv nl md (step nl w a)"
  by (cases a) (simp_all add: inv_tick inv_run_task)

lemma inv_run: "limiter_inv nl md w \<Longrightarrow> limiter_inv nl md (run nl w schedule)"
  unfolding run_def by (induction schedule arbitrary: w) (simp_all add: inv_step)

lemma inv_start: "limiter_inv nl md (start_loop md t0 requests)"
  by (simp add: limiter_inv_def start_loop_def holds_lock_def stamps_def spaced_def)

lemmas loop_defs = run_def start_loop_def run_task_def try_lock_def enter_def after_sleep_def
  finish_def begin_request_def set_stage_def emit_def stamp_def set_lock_def domain_of_def
  one_host_def two_waits_def Let_def

lemma two_waits_trace:
  "trace (run one_host (start_loop 2 100 two_waits) [Run 0, Tick 2, Run 1, Tick 5, Run 0])
     = [Began 0 ViaWait ''https://a.example/1'' 100,
        Began 1 ViaWait ''https://a.example/2'' 102,
        Completed 0 ViaWait ''https://a.example/1'' 107]"
  by (simp add: loop_defs)

text \<open>
  Claim C1, amended. For every domain, every schedule and any number of contending
  tasks: a gated request to the domain begins at least \<open>min_delay\<close> after the beginning
  of every earlier gated request to that domain, and at least \<open>min_delay\<close> after the
  completion of every earlier request to it that was gated by \<open>acquire\<close> and \<open>release\<close>;
  and at most one task at a time holds the domain's lock, that is, waits in the gate or,
  after \<open>acquire\<close>, has its request in flight. (After \<open>wait\<close> the lock is free again when
  the request begins, so the delay counts from the beginning of the previous request,
  and requests gated by \<open>wait\<close> may be in flight together.)
\<close>

theorem limiter_spaces_request_starts:
  assumes "w = run nl (start_loop md t0 requests) schedule"
  shows "(\<forall>i j s t. i < j \<and> j < length (trace w) \<and> stamp_time nl d (trace w ! i) = Some s
            \<and> began_time nl d (trace w ! j) = Some t \<longrightarrow> s + md \<le> t)
         \<and> (\<forall>i j. holds_lock nl d (tasks w i) \<and> holds_lock nl d (tasks w j) \<longrightarrow> i = j)"
proof -
  have "limiter_inv nl md w" unfolding assms by (intro inv_run inv_start)
  then have "spaced nl md d (trace w)"
    and "\<forall>i j. holds_lock nl d (tasks w i) \<and> holds_lock nl d (tasks w j) \<longrightarrow> i = j"
    unfolding limiter_inv_def by blast+
  then show ?thesis unfolding spaced_def by blast
qed

theorem limiter_spaces_request_starts_witness:
  "trace (run one_host (start_loop 2 100 two_waits) [Run 0, Tick 2, Run 1, Tick 5, Run 0]) ! 0
     = Began 0 ViaWait ''https://a.example/1'' 100
   \<and> trace (run one_host (start_loop 2 100 two_waits) [Run 0, Tick 2, Run 1, Tick 5, Run 0]) ! 1
     = Began 1 ViaWait ''https://a.example/2'' 102
   \<and> (100 :: real) + 2 \<le> 102"
proof -
  let ?w = "run one_host (start_loop 2 100 two_waits) [Run 0, Tick 2, Run 1, Tick 5, Run 0]"
  have tr: "trace ?w = [Began 0 ViaWait ''https://a.example/1'' 100,
        Began 1 ViaWait ''https://a.example/2'' 102,
        Completed 0 ViaWait ''https://a.example/1'' 107]"
    by (rule two_waits_trace)
  have s: "stamp_time one_host ''a.example'' (trace ?w ! 0) = Some 100"
    and t: "began_time one_host ''a.example'' (trace ?w ! 1) = Some 102"
    unfolding tr by (simp_all add: gated_def domain_of_def one_host_def)
  have "\<forall>i j s t. i < j \<and> j < length (trace ?w)
        \<and> stamp_time one_host ''a.example'' (trace ?w ! i) = Some s
        \<and> began_time one_host ''a.example'' (trace ?w ! j) = Some t \<longrightarrow> s + 2 \<le> t"
    using limiter_spaces_request_starts [OF refl, of one_host 2 100 two_waits
        "[Run 0, Tick 2, Run 1, Tick 5, Run 0]" "''a.example''"]
    by (rule conjunct1)
  then have "stamp_time one_host ''a.example'' (trace ?w ! 0) = Some 100
        \<and> began_time one_host ''a.example'' (trace ?w ! 1) = Some 102
      \<longrightarrow> (100 :: real) + 2 \<le> 102"
    unfolding tr by (elim allE [of _ 0] allE [of _ 1] allE [of _ 100] allE [of _ 102]) simp
  with s t have "(100 :: real) + 2 \<le> 102" by blast
  then show ?thesis unfolding tr by simp
qed

text \<open>
  Claim C1 as stated fails for \<open>wait\<close>: with a delay of 2, the second request to the host
  begins at 102 while the first, begun at 100, completes only at 107; both are in flight
  at once, and the second does not begin 2 after the first completed.
\<close>

theorem limiter_wait_overlap_counterexample:
  "trace (run one_host (start_loop 2 100 two_waits) [Run 0, Tick 2, Run 1, Tick 5, Run 0])
     = [Began 0 ViaWait ''https://a.example/1'' 100,
        Began 1 ViaWait ''https://a.example/2'' 102,
        Completed 0 ViaWait ''https://a.example/1'' 107]
   \<and> stage (tasks (run one_host (start_loop 2 100 two_waits) [Run 0, Tick 2, Run 1]) 0) = InFlight
   \<and> stage (tasks (run one_host (start_loop 2 100 two_waits) [Run 0, Tick 2, Run 1]) 1) = InFlight"
  by (simp add: loop_defs)

end
